theory Spec2Isabelle
  imports Main
begin

section \<open>Python values, exceptions and the outcome of a call\<close>

text \<open>
  \<^verbatim>\<open>change.py\<close> drives a MongoDB collection through pymongo. The documents it inserts and
  the dictionaries it returns are Python dicts with string keys; the values that occur are
  ints, bools, strings and \<^verbatim>\<open>datetime\<close> stamps.
\<close>

datatype pyval = VInt int | VBool bool | VStr string | VTime int

type_synonym doc = "(string \<times> pyval) list"

type_synonym result = "string \<rightharpoonup> pyval"

text \<open>
  An exception is an instance of Python's \<^verbatim>\<open>Exception\<close>: its class name and what
  \<^verbatim>\<open>str(e)\<close> gives. Signals that derive from \<^verbatim>\<open>BaseException\<close> only
  (\<^verbatim>\<open>KeyboardInterrupt\<close>, \<^verbatim>\<open>SystemExit\<close>) are raised by the interpreter, not by the
  calls of this program, and are not modelled.
\<close>

datatype exn = Exn string string

fun str_exn :: "exn \<Rightarrow> string" where
  "str_exn (Exn c m) = m"

text \<open>
  \<^verbatim>\<open>StopIteration\<close> is the exception by which an iterator says it is exhausted; a
  \<^verbatim>\<open>for\<close> statement that receives it from the iterator ends its loop and raises nothing.
\<close>

fun stop_iteration :: "exn \<Rightarrow> bool" where
  "stop_iteration (Exn c m) = (c = ''StopIteration'')"

text \<open>
  A call on the external world \<open>'w\<close> returns a value, raises, or never returns (iterating
  a change stream waits until a change arrives, with no time limit). The world after the
  call is kept in the first two cases.
\<close>

datatype ('a, 'w) res =
    is_Returns: Returns (returned: 'a) (world_after: 'w)
  | is_Raises: Raises (raised: exn) (world_at_raise: 'w)
  | is_Blocks: Blocks

fun seq :: "('a, 'w) res \<Rightarrow> ('a \<Rightarrow> 'w \<Rightarrow> ('b, 'w) res) \<Rightarrow> ('b, 'w) res" where
  "seq (Returns a w) k = k a w"
| "seq (Raises e w) k = Raises e w"
| "seq Blocks k = Blocks"

text \<open>Python's \<^verbatim>\<open>str\<close> of an int, for the f-string \<^verbatim>\<open>f"resumed_{i}"\<close>.\<close>

definition digit_char :: "nat \<Rightarrow> char" where
  "digit_char d = char_of (48 + d)"

function str_nat :: "nat \<Rightarrow> string" where
  "str_nat n = (if n < 10 then [digit_char n] else str_nat (n div 10) @ [digit_char (n mod 10)])"
  by pat_completeness auto
termination
  by (relation "measure id") auto

declare str_nat.simps [simp del]

definition str_int :: "int \<Rightarrow> string" where
  "str_int i = (if i < 0 then CHR ''-'' # str_nat (nat (- i)) else str_nat (nat i))"

section \<open>The pymongo calls the program makes\<close>

text \<open>
  pymongo and the server are not part of the repository, so the calls of \<^verbatim>\<open>change.py\<close>
  are a parameter of the model: a record of operations on a world \<open>'w\<close>, with stream handles
  \<open>'s\<close>, change events \<open>'e\<close> and resume tokens \<open>'t\<close>.
  \<^item> \<open>collection_watch None\<close> is \<^verbatim>\<open>self.collection.watch()\<close>, and
    \<open>collection_watch tok\<close> is \<^verbatim>\<open>self.collection.watch(resume_after=tok)\<close>
    (\<^verbatim>\<open>resume_after=None\<close> is pymongo's default);
  \<^item> \<open>stream_resume_token\<close> is the property \<^verbatim>\<open>change_stream.resume_token\<close>, which may be
    \<^verbatim>\<open>None\<close>;
  \<^item> \<open>stream_next\<close> is the \<^verbatim>\<open>__next__\<close> of the stream, which
    \<^verbatim>\<open>for change in change_stream\<close> calls once per iteration: it returns a change, waits,
    or raises, and raising \<^verbatim>\<open>StopIteration\<close> is how it says that the stream is exhausted;
  \<^item> \<open>datetime_now\<close> is \<^verbatim>\<open>datetime.now()\<close>.
  Every theorem stated for an arbitrary \<open>src\<close> holds whatever the driver and the server do.
\<close>

record ('w, 's, 'e, 't) driver =
  collection_drop :: "'w \<Rightarrow> (unit, 'w) res"
  collection_create_index :: "string \<Rightarrow> 'w \<Rightarrow> (unit, 'w) res"
  collection_watch :: "'t option \<Rightarrow> 'w \<Rightarrow> ('s, 'w) res"
  collection_insert_one :: "doc \<Rightarrow> 'w \<Rightarrow> (unit, 'w) res"
  stream_resume_token :: "'s \<Rightarrow> 'w \<Rightarrow> 't option"
  stream_next :: "'s \<Rightarrow> 'w \<Rightarrow> ('e, 'w) res"
  stream_close :: "'s \<Rightarrow> 'w \<Rightarrow> (unit, 'w) res"
  time_sleep :: "int \<Rightarrow> 'w \<Rightarrow> (unit, 'w) res"
  datetime_now :: "'w \<Rightarrow> int"

section \<open>ChangeStreamTester\<close>

subsection \<open>setup (lines 15-22)\<close>

definition setup_collection :: "('w, 's, 'e, 't) driver \<Rightarrow> 'w \<Rightarrow> (unit, 'w) res" where
  "setup_collection src w =
     seq (collection_drop src w) (\<lambda>_ w.
     collection_create_index src ''_id'' w)"

subsection \<open>The loops of the two scenarios\<close>

text \<open>
  Lines 32-34 and 55-56: \<^verbatim>\<open>for i in range(iterations): insert_one({"test": .., "timestamp":
  datetime.now()})\<close>. The first loop stores \<^verbatim>\<open>i\<close>, the second \<^verbatim>\<open>f"resumed_{i}"\<close>; \<open>mk\<close> is
  that value. \<^verbatim>\<open>range(iterations)\<close> is \<open>[0..iterations - 1]\<close>, empty when \<open>iterations \<le> 0\<close>.
\<close>

fun insert_documents ::
  "('w, 's, 'e, 't) driver \<Rightarrow> (int \<Rightarrow> pyval) \<Rightarrow> int list \<Rightarrow> 'w \<Rightarrow> (unit, 'w) res" where
  "insert_documents src mk [] w = Returns () w"
| "insert_documents src mk (i # rest) w =
     (case collection_insert_one src
             [(''test'', mk i), (''timestamp'', VTime (datetime_now src w))] w of
        Returns _ w' \<Rightarrow> insert_documents src mk rest w'
      | Raises e w' \<Rightarrow> Raises e w'
      | Blocks \<Rightarrow> Blocks)"

text \<open>
  Lines 37-41 and 58-61:
  \<^verbatim>\<open>for change in change_stream: events.append(change); if len(events) >= iterations: break\<close>.
  The test comes after the append, so the loop takes an event before it looks at
  \<^verbatim>\<open>iterations\<close>. A \<^verbatim>\<open>StopIteration\<close> raised by the step ends the loop without a
  \<^verbatim>\<open>break\<close> and the statements after the loop go on with the events collected so far;
  any other exception of the step leaves the loop.
\<close>

function collect ::
  "('w, 's, 'e, 't) driver \<Rightarrow> 's \<Rightarrow> int \<Rightarrow> 'e list \<Rightarrow> 'w \<Rightarrow> ('e list, 'w) res" where
  "collect src change_stream iterations events w =
     (case stream_next src change_stream w of
        Returns change w' \<Rightarrow>
          (if int (length (events @ [change])) \<ge> iterations
           then Returns (events @ [change]) w'
           else collect src change_stream iterations (events @ [change]) w')
      | Raises e w' \<Rightarrow> (if stop_iteration e then Returns events w' else Raises e w')
      | Blocks \<Rightarrow> Blocks)"
  by pat_completeness auto
termination
  by (relation "measure (\<lambda>(src, change_stream, iterations, events, w).
                  nat (iterations - int (length events)))") auto

declare collect.simps [simp del]

text \<open>
  Lines 79-82 and 95-98:
  \<^verbatim>\<open>for change in change_stream: pre_disconnect_events.append(change); break\<close>.
  The loop takes one event; a \<^verbatim>\<open>StopIteration\<close> of the step leaves the list empty.
\<close>

definition collect_first ::
  "('w, 's, 'e, 't) driver \<Rightarrow> 's \<Rightarrow> 'w \<Rightarrow> ('e list, 'w) res" where
  "collect_first src change_stream w =
     (case stream_next src change_stream w of
        Returns change w' \<Rightarrow> Returns [change] w'
      | Raises e w' \<Rightarrow> (if stop_iteration e then Returns [] w' else Raises e w')
      | Blocks \<Rightarrow> Blocks)"

subsection \<open>test_resume_token_persistence (lines 24-69)\<close>

text \<open>
  Lines 27-63: everything before the \<^verbatim>\<open>return\<close>, giving the two local lists \<^verbatim>\<open>events\<close>
  and \<^verbatim>\<open>new_events\<close>. No call is inside a \<^verbatim>\<open>try\<close>. The logging calls and the read of
  \<^verbatim>\<open>initial_resume_token\<close> (line 28, only logged) change nothing and are left out.
\<close>

definition resume_token_phases ::
  "('w, 's, 'e, 't) driver \<Rightarrow> int \<Rightarrow> 'w \<Rightarrow> ('e list \<times> 'e list, 'w) res" where
  "resume_token_phases src iterations w =
     seq (collection_watch src None w) (\<lambda>change_stream w.
     seq (insert_documents src VInt [0..iterations - 1] w) (\<lambda>_ w.
     seq (collect src change_stream iterations [] w) (\<lambda>events w.
     let last_resume_token = stream_resume_token src change_stream w in
     seq (stream_close src change_stream w) (\<lambda>_ w.
     seq (collection_watch src last_resume_token w) (\<lambda>resumed_stream w.
     seq (insert_documents src (\<lambda>i. VStr (''resumed_'' @ str_int i)) [0..iterations - 1] w) (\<lambda>_ w.
     seq (collect src resumed_stream iterations [] w) (\<lambda>new_events w.
     seq (stream_close src resumed_stream w) (\<lambda>_ w.
     Returns (events, new_events) w))))))))"

text \<open>Lines 65-69: the returned dict.\<close>

definition resume_token_result :: "int \<Rightarrow> 'e list \<Rightarrow> 'e list \<Rightarrow> result" where
  "resume_token_result iterations events new_events =
     [''initial_events'' \<mapsto> VInt (int (length events)),
      ''resumed_events'' \<mapsto> VInt (int (length new_events)),
      ''success'' \<mapsto> VBool (int (length new_events) = iterations)]"

definition test_resume_token_persistence ::
  "('w, 's, 'e, 't) driver \<Rightarrow> int \<Rightarrow> 'w \<Rightarrow> (result, 'w) res" where
  "test_resume_token_persistence src iterations w =
     seq (resume_token_phases src iterations w) (\<lambda>(events, new_events) w.
     Returns (resume_token_result iterations events new_events) w)"

subsection \<open>test_stream_durability (lines 71-115)\<close>

text \<open>Lines 73-88, before the \<^verbatim>\<open>try\<close>: the locals \<^verbatim>\<open>pre_disconnect_events\<close> and
  \<^verbatim>\<open>resume_token\<close>.\<close>

definition disconnect_phase ::
  "('w, 's, 'e, 't) driver \<Rightarrow> int \<Rightarrow> 'w \<Rightarrow> ('e list \<times> 't option, 'w) res" where
  "disconnect_phase src disconnect_duration w =
     seq (collection_watch src None w) (\<lambda>change_stream w.
     seq (collection_insert_one src
            [(''phase'', VStr ''pre-disconnect''), (''timestamp'', VTime (datetime_now src w))] w) (\<lambda>_ w.
     seq (collect_first src change_stream w) (\<lambda>pre_disconnect_events w.
     let resume_token = stream_resume_token src change_stream w in
     seq (stream_close src change_stream w) (\<lambda>_ w.
     seq (time_sleep src disconnect_duration w) (\<lambda>_ w.
     Returns (pre_disconnect_events, resume_token) w)))))"

text \<open>Lines 92-100, the body of the \<^verbatim>\<open>try\<close>: the local \<^verbatim>\<open>post_disconnect_events\<close>.\<close>

definition resume_phase ::
  "('w, 's, 'e, 't) driver \<Rightarrow> 't option \<Rightarrow> 'w \<Rightarrow> ('e list, 'w) res" where
  "resume_phase src resume_token w =
     seq (collection_watch src resume_token w) (\<lambda>resumed_stream w.
     seq (collection_insert_one src
            [(''phase'', VStr ''post-disconnect''), (''timestamp'', VTime (datetime_now src w))] w) (\<lambda>_ w.
     seq (collect_first src resumed_stream w) (\<lambda>post_disconnect_events w.
     seq (stream_close src resumed_stream w) (\<lambda>_ w.
     Returns post_disconnect_events w))))"

text \<open>Lines 102-106 and 110-115: the two returned dicts.\<close>

definition durability_result :: "'e list \<Rightarrow> 'e list \<Rightarrow> result" where
  "durability_result pre_disconnect_events post_disconnect_events =
     [''pre_disconnect_events'' \<mapsto> VInt (int (length pre_disconnect_events)),
      ''post_disconnect_events'' \<mapsto> VInt (int (length post_disconnect_events)),
      ''success'' \<mapsto> VBool (length post_disconnect_events > 0)]"

definition durability_failure :: "'e list \<Rightarrow> exn \<Rightarrow> result" where
  "durability_failure pre_disconnect_events e =
     [''pre_disconnect_events'' \<mapsto> VInt (int (length pre_disconnect_events)),
      ''post_disconnect_events'' \<mapsto> VInt 0,
      ''success'' \<mapsto> VBool False,
      ''error'' \<mapsto> VStr (str_exn e)]"

text \<open>\<^verbatim>\<open>except Exception as e\<close> (line 108) turns a raise of the \<^verbatim>\<open>try\<close> body into the
  failure dict; a raise before the \<^verbatim>\<open>try\<close> is not handled.\<close>

definition test_stream_durability ::
  "('w, 's, 'e, 't) driver \<Rightarrow> int \<Rightarrow> 'w \<Rightarrow> (result, 'w) res" where
  "test_stream_durability src disconnect_duration w =
     seq (disconnect_phase src disconnect_duration w) (\<lambda>(pre_disconnect_events, resume_token) w.
     case resume_phase src resume_token w of
       Returns post_disconnect_events w' \<Rightarrow>
         Returns (durability_result pre_disconnect_events post_disconnect_events) w'
     | Raises e w' \<Rightarrow> Returns (durability_failure pre_disconnect_events e) w'
     | Blocks \<Rightarrow> Blocks)"

subsection \<open>run_all_tests (lines 117-126)\<close>

text \<open>The defaults of the keyword parameters (lines 24 and 71).\<close>

definition iterations_default :: int where
  "iterations_default = 5"

definition disconnect_duration_default :: int where
  "disconnect_duration_default = 5"

definition run_all_tests ::
  "('w, 's, 'e, 't) driver \<Rightarrow> 'w \<Rightarrow> (string \<rightharpoonup> result, 'w) res" where
  "run_all_tests src w =
     seq (setup_collection src w) (\<lambda>_ w.
     seq (test_resume_token_persistence src iterations_default w) (\<lambda>resume_token_test w.
     seq (test_stream_durability src disconnect_duration_default w) (\<lambda>durability_test w.
     Returns [''resume_token_test'' \<mapsto> resume_token_test,
              ''durability_test'' \<mapsto> durability_test] w)))"

section \<open>The event source\<close>

text \<open>
  Modelled from the spec: the EventSource, the StreamHandle and the ResumeToken (spec
  sections 3, 4.1 and 4.2), which are pymongo and the MongoDB server and are not under
  \<^verbatim>\<open>src/\<close>. The source is an ordered, appendable log of change events; a stream is a
  position in that log; the token of a stream marks the position just after the event it
  delivered last, or the position it was opened at; opening at a token fails when the
  position is unknown or older than the retention window. What the spec leaves open is
  taken from the program's own comments and from pymongo: \<^verbatim>\<open>drop\<close> clears the collection
  (line 17) and logs a drop and an invalidate event; a stream that delivers an invalidate
  event is closed by it, and a token that marks one cannot be resumed after; iterating a
  closed stream raises \<^verbatim>\<open>StopIteration\<close>; iterating an open stream with nothing to deliver waits;
  \<^verbatim>\<open>time.sleep\<close> refuses a negative length. Two parameters of the world stand for what this
  program does not control: \<open>others\<close>, what other clients do to the collection right after
  each insert of this program, and \<open>faults\<close>, the driver calls (counted from 0) at which
  the connection fails.
\<close>

record event =
  operationType :: string
  sequenceMarker :: nat
  payload :: doc
  insertedAt :: int

record stream_handle =
  position :: nat
  closed :: bool

datatype other = OtherInsert doc | OtherDrop

record world =
  documents :: "doc list"
  indexes :: "string list"
  oplog :: "event list"
  streams :: "stream_handle list"
  clock :: int
  retention :: int
  others :: "other list list"
  faults :: "(nat \<times> exn) list"
  calls :: nat

definition call :: "(world \<Rightarrow> ('a, world) res) \<Rightarrow> world \<Rightarrow> ('a, world) res" where
  "call op w =
     (case map_of (faults w) (calls w) of
        Some e \<Rightarrow> Raises e (w\<lparr>calls := calls w + 1\<rparr>)
      | None \<Rightarrow> op (w\<lparr>calls := calls w + 1\<rparr>))"

definition append_change :: "string \<Rightarrow> doc \<Rightarrow> world \<Rightarrow> world" where
  "append_change kind d w =
     w\<lparr>oplog := oplog w @
         [\<lparr>operationType = kind, sequenceMarker = length (oplog w) + 1, payload = d,
           insertedAt = clock w\<rparr>]\<rparr>"

definition insert_document :: "doc \<Rightarrow> world \<Rightarrow> world" where
  "insert_document d w = append_change ''insert'' d (w\<lparr>documents := documents w @ [d]\<rparr>)"

definition drop_collection :: "world \<Rightarrow> world" where
  "drop_collection w =
     append_change ''invalidate'' [] (append_change ''drop'' [] (w\<lparr>documents := [], indexes := []\<rparr>))"

fun apply_others :: "other list \<Rightarrow> world \<Rightarrow> world" where
  "apply_others [] w = w"
| "apply_others (OtherInsert d # rest) w = apply_others rest (insert_document d w)"
| "apply_others (OtherDrop # rest) w = apply_others rest (drop_collection w)"

definition mongo_insert_one :: "doc \<Rightarrow> world \<Rightarrow> (unit, world) res" where
  "mongo_insert_one d = call (\<lambda>w.
     case others w of
       [] \<Rightarrow> Returns () (insert_document d w)
     | now # later \<Rightarrow> Returns () (apply_others now (insert_document d w)\<lparr>others := later\<rparr>))"

definition open_at :: "nat \<Rightarrow> world \<Rightarrow> (nat, world) res" where
  "open_at p w =
     Returns (length (streams w)) (w\<lparr>streams := streams w @ [\<lparr>position = p, closed = False\<rparr>]\<rparr>)"

definition mongo_watch :: "nat option \<Rightarrow> world \<Rightarrow> (nat, world) res" where
  "mongo_watch tok = call (\<lambda>w.
     case tok of
       None \<Rightarrow> open_at (length (oplog w)) w
     | Some t \<Rightarrow>
         if t > length (oplog w)
         then Raises (Exn ''OperationFailure'' ''cannot resume: unknown resume token'') w
         else if t > 0 \<and> clock w - insertedAt (oplog w ! (t - 1)) > retention w
         then Raises (Exn ''OperationFailure'' ''cannot resume: resume point no longer retained'') w
         else if t > 0 \<and> operationType (oplog w ! (t - 1)) = ''invalidate''
         then Raises (Exn ''OperationFailure'' ''cannot resume after an invalidate event'') w
         else open_at t w)"

definition mongo_resume_token :: "nat \<Rightarrow> world \<Rightarrow> nat option" where
  "mongo_resume_token s w =
     (if s < length (streams w) then Some (position (streams w ! s)) else None)"

definition mongo_next :: "nat \<Rightarrow> world \<Rightarrow> (event, world) res" where
  "mongo_next s w =
     (if s \<ge> length (streams w)
      then Raises (Exn ''InvalidOperation'' ''no such stream'') w
      else call (\<lambda>w.
             if closed (streams w ! s) then Raises (Exn ''StopIteration'' []) w
             else if position (streams w ! s) < length (oplog w)
             then let change = oplog w ! position (streams w ! s) in
                  Returns change
                    (w\<lparr>streams := (streams w)[s :=
                         \<lparr>position = Suc (position (streams w ! s)),
                          closed = (operationType change = ''invalidate'')\<rparr>]\<rparr>)
             else Blocks) w)"

definition mongo_close :: "nat \<Rightarrow> world \<Rightarrow> (unit, world) res" where
  "mongo_close s = call (\<lambda>w.
     Returns () (if s < length (streams w)
                 then w\<lparr>streams := (streams w)[s := (streams w ! s)\<lparr>closed := True\<rparr>]\<rparr>
                 else w))"

definition mongo_drop :: "world \<Rightarrow> (unit, world) res" where
  "mongo_drop = call (\<lambda>w. Returns () (drop_collection w))"

definition mongo_create_index :: "string \<Rightarrow> world \<Rightarrow> (unit, world) res" where
  "mongo_create_index k = call (\<lambda>w.
     Returns () (if k \<in> set (indexes w) then w else w\<lparr>indexes := indexes w @ [k]\<rparr>))"

definition mongo_sleep :: "int \<Rightarrow> world \<Rightarrow> (unit, world) res" where
  "mongo_sleep d w =
     (if d < 0 then Raises (Exn ''ValueError'' ''sleep length must be non-negative'') w
      else Returns () (w\<lparr>clock := clock w + d\<rparr>))"

definition mongo :: "(world, nat, event, nat) driver" where
  "mongo =
     \<lparr>collection_drop = mongo_drop,
      collection_create_index = mongo_create_index,
      collection_watch = mongo_watch,
      collection_insert_one = mongo_insert_one,
      stream_resume_token = mongo_resume_token,
      stream_next = mongo_next,
      stream_close = mongo_close,
      time_sleep = mongo_sleep,
      datetime_now = clock\<rparr>"

text \<open>A server with an empty log, a retention window, other clients and connection faults.\<close>

definition server :: "int \<Rightarrow> other list list \<Rightarrow> (nat \<times> exn) list \<Rightarrow> world" where
  "server window other_clients failures =
     \<lparr>documents = [], indexes = [], oplog = [], streams = [], clock = 0,
      retention = window, others = other_clients, faults = failures, calls = 0\<rparr>"

section \<open>Notions used to state the properties\<close>

text \<open>
  \<open>deliveries src cs evs w\<close> is the world after the stream has delivered exactly the events
  \<open>evs\<close>, one per \<open>stream_next\<close> call starting in \<open>w\<close>; \<open>None\<close> when it does not deliver
  them.
\<close>

fun deliveries :: "('w, 's, 'e, 't) driver \<Rightarrow> 's \<Rightarrow> 'e list \<Rightarrow> 'w \<Rightarrow> 'w option" where
  "deliveries src cs [] w = Some w"
| "deliveries src cs (e # es) w =
     (case stream_next src cs w of
        Returns change w' \<Rightarrow> if change = e then deliveries src cs es w' else None
      | Raises x w' \<Rightarrow> None
      | Blocks \<Rightarrow> None)"

text \<open>The log numbers its events 1, 2, 3, ... in the order they were appended.\<close>

definition log_ordered :: "world \<Rightarrow> bool" where
  "log_ordered w \<longleftrightarrow> map sequenceMarker (oplog w) = [1..<Suc (length (oplog w))]"

text \<open>
  \<open>numbered p w\<close>: from position \<open>p\<close> on, the log numbers its events by their place, the
  event at place \<open>i\<close> (counted from 0) carrying the marker \<open>i + 1\<close>.
\<close>

definition numbered :: "nat \<Rightarrow> world \<Rightarrow> bool" where
  "numbered p w \<longleftrightarrow>
     p \<le> length (oplog w) \<and>
     map sequenceMarker (drop p (oplog w)) = [Suc p..<Suc (length (oplog w))]"

text \<open>
  \<open>watching n w\<close> is the world in which a stream has just been opened with
  \<^verbatim>\<open>self.collection.watch()\<close> on \<open>w\<close> and \<open>n\<close> documents have then been inserted, as lines
  27-34 do.
\<close>

definition watching :: "int \<Rightarrow> world \<Rightarrow> world" where
  "watching n w =
     world_after (insert_documents mongo VInt [0..n - 1]
       (world_after (collection_watch mongo None w)))"


section \<open>Sequencing of calls\<close>

lemma seq_Returns_iff:
  "seq m k = Returns b w' \<longleftrightarrow> (\<exists>a w1. m = Returns a w1 \<and> k a w1 = Returns b w')"
  by (cases m) auto

lemma seq_Raises_iff:
  "seq m k = Raises e w' \<longleftrightarrow>
     m = Raises e w' \<or> (\<exists>a w1. m = Returns a w1 \<and> k a w1 = Raises e w')"
  by (cases m) auto

lemma seq_Blocks_iff:
  "seq m k = Blocks \<longleftrightarrow> m = Blocks \<or> (\<exists>a w1. m = Returns a w1 \<and> k a w1 = Blocks)"
  by (cases m) auto

section \<open>The collection loop, for every driver\<close>

lemma collect_length_le:
  "collect src cs n evs w = Returns out w' \<Longrightarrow> int (length evs) < n \<Longrightarrow> int (length out) \<le> n"
proof (induction src cs n evs w rule: collect.induct)
  case (1 src cs n evs w)
  note unfold = collect.simps [of src cs n evs w]
  show ?case
  proof (cases "stream_next src cs w")
    case (Returns change w1)
    show ?thesis
    proof (cases "n \<le> int (length (evs @ [change]))")
      case True
      with Returns "1.prems" show ?thesis by (auto simp: unfold)
    next
      case False
      with Returns "1.prems" have "collect src cs n (evs @ [change]) w1 = Returns out w'"
        by (simp add: unfold)
      moreover from False have "int (length (evs @ [change])) < n" by simp
      ultimately show ?thesis
        using "1.IH" [OF Returns False] by blast
    qed
  next
    case (Raises e w1)
    with "1.prems" show ?thesis by (simp add: unfold split: if_splits)
  next
    case Blocks
    with "1.prems" show ?thesis by (simp add: unfold)
  qed
qed

text \<open>The loop after the stream has delivered some events: it goes on from there.\<close>

lemma collect_deliveries:
  "deliveries src cs evs w = Some w1 \<Longrightarrow> int (length acc + length evs) < n \<Longrightarrow>
   collect src cs n acc w = collect src cs n (acc @ evs) w1"
proof (induction evs arbitrary: acc w)
  case Nil
  then show ?case by simp
next
  case (Cons e es)
  from Cons.prems(1) obtain w' where
    nx: "stream_next src cs w = Returns e w'" and rest: "deliveries src cs es w' = Some w1"
    by (auto split: res.splits if_splits)
  from Cons.prems(2) have "\<not> n \<le> int (length (acc @ [e]))" by simp
  with nx have "collect src cs n acc w = collect src cs n (acc @ [e]) w'"
    by (simp add: collect.simps [of src cs n acc w])
  also have "\<dots> = collect src cs n ((acc @ [e]) @ es) w1"
    using Cons.prems(2) by (intro Cons.IH [OF rest]) simp
  finally show ?case by simp
qed

lemma deliveries_snoc:
  "deliveries src cs (evs @ [e]) w = Some w1 \<longleftrightarrow>
     (\<exists>w'. deliveries src cs evs w = Some w' \<and> stream_next src cs w' = Returns e w1)"
  by (induction evs arbitrary: w) (auto split: res.splits)

lemma collect_exact:
  assumes "deliveries src cs evs w = Some w1" and "int (length evs) = n" and "1 \<le> n"
  shows "collect src cs n [] w = Returns evs w1"
proof -
  from assms(2,3) obtain front e where evs: "evs = front @ [e]"
    by (cases evs rule: rev_cases) auto
  from assms(1) obtain w' where
    fr: "deliveries src cs front w = Some w'" and nx: "stream_next src cs w' = Returns e w1"
    by (auto simp: evs deliveries_snoc)
  from assms(2) have "int (length ([] @ front)) < n" by (simp add: evs)
  then have "collect src cs n [] w = collect src cs n front w'"
    using collect_deliveries [OF fr, of "[]" n] by simp
  also from nx assms(2) have "\<dots> = Returns evs w1"
    by (simp add: collect.simps [of src cs n front w'] evs)
  finally show ?thesis .
qed

lemma collect_stopped:
  assumes "deliveries src cs evs w = Some w1" and "int (length evs) < n"
  shows "collect src cs n [] w =
           (case stream_next src cs w1 of
              Returns change w2 \<Rightarrow>
                if n \<le> int (length evs) + 1 then Returns (evs @ [change]) w2
                else collect src cs n (evs @ [change]) w2
            | Raises x w2 \<Rightarrow> if stop_iteration x then Returns evs w2 else Raises x w2
            | Blocks \<Rightarrow> Blocks)"
proof -
  have "collect src cs n [] w = collect src cs n evs w1"
    using collect_deliveries [OF assms(1), of "[]" n] assms(2) by simp
  then show ?thesis
    by (simp add: collect.simps [of src cs n evs w1] split: res.splits)
qed

section \<open>The two scenarios, for every driver\<close>

lemma test_resume_token_persistence_Returns:
  "test_resume_token_persistence src n w = Returns r w' \<longleftrightarrow>
     (\<exists>events new_events. resume_token_phases src n w = Returns (events, new_events) w' \<and>
        r = resume_token_result n events new_events)"
  by (auto simp: test_resume_token_persistence_def seq_Returns_iff)

lemma resume_token_phases_lengths:
  assumes "resume_token_phases src n w = Returns (events, new_events) w'" and "1 \<le> n"
  shows "int (length events) \<le> n \<and> int (length new_events) \<le> n"
  using assms
  by (auto simp: resume_token_phases_def seq_Returns_iff Let_def dest: collect_length_le)

text \<open>
  The loop of lines 95-98 returns the one event the step delivers, or no event when the
  step raises \<^verbatim>\<open>StopIteration\<close>; it raises what the step raises otherwise.
\<close>

lemma collect_first_Returns:
  "collect_first src s w = Returns post w' \<longleftrightarrow>
     (\<exists>c. stream_next src s w = Returns c w' \<and> post = [c]) \<or>
     (\<exists>e. stream_next src s w = Raises e w' \<and> stop_iteration e \<and> post = [])"
  by (cases "stream_next src s w") (auto simp: collect_first_def)


text \<open>
  Where a raise of the \<^verbatim>\<open>try\<close> body of \<^verbatim>\<open>test_stream_durability\<close> can come from: each
  of its four statements.
\<close>

lemma resume_phase_Raises:
  "resume_phase src tok w = Raises e w' \<longleftrightarrow>
     collection_watch src tok w = Raises e w' \<or>
     (\<exists>s wa. collection_watch src tok w = Returns s wa \<and>
        (collection_insert_one src
           [(''phase'', VStr ''post-disconnect''), (''timestamp'', VTime (datetime_now src wa))] wa
           = Raises e w' \<or>
         (\<exists>wb. collection_insert_one src
            [(''phase'', VStr ''post-disconnect''), (''timestamp'', VTime (datetime_now src wa))] wa
            = Returns () wb \<and>
            (collect_first src s wb = Raises e w' \<or>
             (\<exists>post wc. collect_first src s wb = Returns post wc \<and>
                stream_close src s wc = Raises e w')))))"
proof (cases "collection_watch src tok w")
  case (Returns s wa)
  note watch = this
  let ?d = "[(''phase'', VStr ''post-disconnect''), (''timestamp'', VTime (datetime_now src wa))]"
  show ?thesis
  proof (cases "collection_insert_one src ?d wa")
    case (Returns u wb)
    note ins = this
    show ?thesis
    proof (cases "collect_first src s wb")
      case (Returns post wc)
      then show ?thesis
        by (cases "stream_close src s wc") (simp_all add: resume_phase_def watch ins)
    qed (simp_all add: resume_phase_def watch ins)
  qed (simp_all add: resume_phase_def watch)
qed (simp_all add: resume_phase_def)

lemma test_stream_durability_caught:
  assumes "disconnect_phase src d w = Returns (pre, tok) w1"
    and "resume_phase src tok w1 = Raises e w2"
  shows "test_stream_durability src d w = Returns (durability_failure pre e) w2"
  using assms by (simp add: test_stream_durability_def)

lemma test_stream_durability_completed:
  assumes "disconnect_phase src d w = Returns (pre, tok) w1"
    and "resume_phase src tok w1 = Returns post w2"
  shows "test_stream_durability src d w = Returns (durability_result pre post) w2"
  using assms by (simp add: test_stream_durability_def)


lemma resume_phase_Returns:
  "resume_phase src tok w = Returns post w' \<longleftrightarrow>
     (\<exists>s wa wb wc. collection_watch src tok w = Returns s wa \<and>
        collection_insert_one src
          [(''phase'', VStr ''post-disconnect''), (''timestamp'', VTime (datetime_now src wa))] wa
          = Returns () wb \<and>
        collect_first src s wb = Returns post wc \<and>
        stream_close src s wc = Returns () w')"
  by (auto simp: resume_phase_def seq_Returns_iff)

lemma resume_phase_length:
  "resume_phase src tok w = Returns post w' \<Longrightarrow> length post \<le> 1"
  by (auto simp: resume_phase_Returns collect_first_Returns)

section \<open>The event source: what its calls do to the log and the streams\<close>

lemma call_Returns:
  "call op w = Returns a w1 \<Longrightarrow> op (w\<lparr>calls := calls w + 1\<rparr>) = Returns a w1"
  by (auto simp: call_def split: option.splits)

lemma oplog_append_change: "oplog (append_change kind d w) =
   oplog w @ [\<lparr>operationType = kind, sequenceMarker = length (oplog w) + 1, payload = d,
               insertedAt = clock w\<rparr>]"
  by (simp add: append_change_def)

lemma streams_append_change: "streams (append_change kind d w) = streams w"
  by (simp add: append_change_def)

lemma documents_append_change: "documents (append_change kind d w) = documents w"
  by (simp add: append_change_def)

lemma numbered_append_change: "numbered p w \<Longrightarrow> numbered p (append_change kind d w)"
  by (simp add: numbered_def oplog_append_change)

lemma oplog_insert_document: "\<exists>ys. oplog (insert_document d w) = oplog w @ ys"
  by (simp add: insert_document_def oplog_append_change)

lemma streams_insert_document: "streams (insert_document d w) = streams w"
  by (simp add: insert_document_def streams_append_change)

lemma numbered_insert_document: "numbered p w \<Longrightarrow> numbered p (insert_document d w)"
  unfolding insert_document_def by (rule numbered_append_change) (simp add: numbered_def)

lemma oplog_drop_collection: "\<exists>ys. oplog (drop_collection w) = oplog w @ ys"
  by (simp add: drop_collection_def oplog_append_change)

lemma streams_drop_collection: "streams (drop_collection w) = streams w"
  by (simp add: drop_collection_def streams_append_change)

lemma documents_drop_collection: "documents (drop_collection w) = []"
  by (simp add: drop_collection_def documents_append_change)

lemma numbered_drop_collection: "numbered p w \<Longrightarrow> numbered p (drop_collection w)"
  unfolding drop_collection_def
  by (intro numbered_append_change) (simp add: numbered_def)

lemma oplog_apply_others: "\<exists>ys. oplog (apply_others os w) = oplog w @ ys"
proof (induction os w rule: apply_others.induct)
  case (1 w)
  show ?case by simp
next
  case (2 d rest w)
  from "2.IH" oplog_insert_document [of d w] show ?case by auto
next
  case (3 rest w)
  from "3.IH" oplog_drop_collection [of w] show ?case by auto
qed

lemma streams_apply_others: "streams (apply_others os w) = streams w"
  by (induction os w rule: apply_others.induct)
     (simp_all add: streams_insert_document streams_drop_collection)

lemma numbered_apply_others: "numbered p w \<Longrightarrow> numbered p (apply_others os w)"
  by (induction os w rule: apply_others.induct)
     (simp_all add: numbered_insert_document numbered_drop_collection)

lemma mongo_insert_one_Returns:
  assumes "mongo_insert_one d w = Returns u w1"
  shows "streams w1 = streams w \<and> (\<exists>ys. oplog w1 = oplog w @ ys) \<and>
         (numbered p w \<longrightarrow> numbered p w1)"
proof -
  let ?w = "w\<lparr>calls := calls w + 1\<rparr>"
  have num: "numbered p ?w" if "numbered p w"
    using that by (simp add: numbered_def)
  from assms have
    "(case others ?w of [] \<Rightarrow> Returns () (insert_document d ?w)
      | now # later \<Rightarrow> Returns () (apply_others now (insert_document d ?w)\<lparr>others := later\<rparr>))
     = Returns u w1"
    unfolding mongo_insert_one_def by (rule call_Returns)
  then consider "w1 = insert_document d ?w"
    | now later where "w1 = apply_others now (insert_document d ?w)\<lparr>others := later\<rparr>"
    by (auto split: list.splits)
  then show ?thesis
  proof cases
    case 1
    with oplog_insert_document [of d ?w] num show ?thesis
      by (auto simp: streams_insert_document numbered_insert_document)
  next
    case 2
    obtain ys where "oplog (insert_document d ?w) = oplog ?w @ ys"
      using oplog_insert_document by blast
    moreover obtain zs where
      "oplog (apply_others now (insert_document d ?w)) = oplog (insert_document d ?w) @ zs"
      using oplog_apply_others by blast
    moreover have "numbered p w1" if "numbered p w"
    proof -
      from that have "numbered p (apply_others now (insert_document d ?w))"
        by (intro numbered_apply_others numbered_insert_document num)
      then show ?thesis by (simp add: 2 numbered_def)
    qed
    ultimately show ?thesis using 2
      by (simp add: streams_apply_others streams_insert_document)
  qed
qed

lemma insert_documents_mongo:
  "insert_documents mongo mk ns w = Returns u w1 \<Longrightarrow>
   streams w1 = streams w \<and> (\<exists>ys. oplog w1 = oplog w @ ys) \<and>
   (numbered p w \<longrightarrow> numbered p w1)"
proof (induction ns arbitrary: w)
  case Nil
  then show ?case by simp
next
  case (Cons i rest)
  from Cons.prems obtain w' where
    one: "mongo_insert_one [(''test'', mk i), (''timestamp'', VTime (clock w))] w = Returns () w'"
    and more: "insert_documents mongo mk rest w' = Returns u w1"
    by (auto simp: mongo_def split: res.splits)
  from mongo_insert_one_Returns [OF one, of p] Cons.IH [OF more] show ?case by auto
qed

lemma mongo_next_Returns:
  assumes "mongo_next s w = Returns e w1"
  shows "s < length (streams w) \<and> position (streams w ! s) < length (oplog w) \<and>
         e = oplog w ! position (streams w ! s) \<and> oplog w1 = oplog w \<and>
         streams w1 = (streams w)[s :=
           \<lparr>position = Suc (position (streams w ! s)),
            closed = (operationType e = ''invalidate'')\<rparr>]"
proof -
  from assms have s: "s < length (streams w)"
    by (auto simp: mongo_next_def split: if_splits)
  with assms show ?thesis
    using call_Returns [of _ w e w1]
    by (auto simp: mongo_next_def Let_def call_def split: if_splits option.splits)
qed

lemma mongo_next_stop:
  assumes "mongo_next s w = Raises e w1"
  shows "s < length (streams w) \<longrightarrow> oplog w1 = oplog w \<and> streams w1 = streams w"
    and "stop_iteration e \<longrightarrow> s < length (streams w)"
  using assms
  by (auto simp: mongo_next_def Let_def call_def split: if_splits option.splits)

lemma mongo_next_fresh:
  assumes "s < length (streams w)" and "\<not> closed (streams w ! s)"
    and "map_of (faults w) (calls w) = None"
  shows "mongo_next s w =
           (if position (streams w ! s) < length (oplog w)
            then Returns (oplog w ! position (streams w ! s))
                   (w\<lparr>calls := calls w + 1,
                      streams := (streams w)[s :=
                        \<lparr>position = Suc (position (streams w ! s)),
                         closed = (operationType (oplog w ! position (streams w ! s))
                                   = ''invalidate'')\<rparr>]\<rparr>)
            else Blocks)"
  using assms by (simp add: mongo_next_def call_def Let_def)

lemma mongo_close_Returns:
  assumes "mongo_close s w = Returns u w1"
  shows "oplog w1 = oplog w \<and> length (streams w1) = length (streams w)"
  using call_Returns [OF assms [unfolded mongo_close_def]]
  by (auto split: if_splits)

lemma mongo_watch_Some:
  assumes "mongo_watch (Some t) w = Returns s2 w1"
  shows "s2 = length (streams w) \<and> oplog w1 = oplog w \<and>
         streams w1 = streams w @ [\<lparr>position = t, closed = False\<rparr>]"
  using call_Returns [OF assms [unfolded mongo_watch_def]]
  by (auto simp: open_at_def split: if_splits)

lemma mongo_watch_None:
  assumes "mongo_watch None w = Returns s w1"
  shows "s = length (streams w) \<and> oplog w1 = oplog w \<and>
         streams w1 = streams w @ [\<lparr>position = length (oplog w), closed = False\<rparr>]"
  using call_Returns [OF assms [unfolded mongo_watch_def]]
  by (auto simp: open_at_def)

lemma mongo_drop_result:
  "mongo_drop w =
     (case map_of (faults w) (calls w) of
        Some e \<Rightarrow> Raises e (w\<lparr>calls := calls w + 1\<rparr>)
      | None \<Rightarrow> Returns () (drop_collection (w\<lparr>calls := calls w + 1\<rparr>)))"
  by (simp add: mongo_drop_def call_def)

lemma mongo_create_index_documents:
  "mongo_create_index k w = Returns u w1 \<Longrightarrow> documents w1 = documents w"
  by (auto simp: mongo_create_index_def call_def split: option.splits if_splits)

lemma setup_collection_mongo:
  "setup_collection mongo w = Returns u w1 \<Longrightarrow> documents w1 = []"
  by (auto simp: setup_collection_def mongo_def seq_Returns_iff mongo_drop_result
        documents_drop_collection
        dest!: mongo_create_index_documents split: option.splits)

text \<open>
  The loop on the event source: it returns consecutive log entries, starting at the
  position of the stream, and moves the stream past them.
\<close>

lemma take_drop_step:
  "p < length xs \<Longrightarrow> xs ! p # take k (drop (Suc p) xs) = take (Suc k) (drop p xs)"
  by (simp add: Cons_nth_drop_Suc [symmetric])

lemma collect_mongo:
  "collect mongo s n acc w = Returns out w1 \<Longrightarrow>
   s < length (streams w) \<and> oplog w1 = oplog w \<and> length (streams w1) = length (streams w) \<and>
   (\<exists>k. out = acc @ take k (drop (position (streams w ! s)) (oplog w)) \<and>
        length out = length acc + k \<and>
        position (streams w1 ! s) = position (streams w ! s) + k)"
proof (induction mongo s n acc w rule: collect.induct)
  case (1 s n acc w)
  note unfold = collect.simps [of mongo s n acc w]
  have nx_def: "stream_next mongo s w = mongo_next s w" by (simp add: mongo_def)
  show ?case
  proof (cases "mongo_next s w")
    case (Returns change w')
    note nx = mongo_next_Returns [OF Returns]
    let ?p = "position (streams w ! s)"
    show ?thesis
    proof (cases "n \<le> int (length (acc @ [change]))")
      case True
      with Returns "1.prems" have "out = acc @ [change]" "w1 = w'"
        by (simp_all add: unfold nx_def)
      moreover from nx have "[change] = take 1 (drop ?p (oplog w))"
        using take_drop_step [of ?p "oplog w" 0] by simp
      ultimately show ?thesis using nx
        by (auto intro!: exI [of _ 1])
    next
      case False
      with Returns "1.prems" have rec: "collect mongo s n (acc @ [change]) w' = Returns out w1"
        by (simp add: unfold nx_def)
      from "1.hyps" [OF Returns [folded nx_def] False rec] obtain k where
        k: "oplog w1 = oplog w'" "length (streams w1) = length (streams w')"
           "out = (acc @ [change]) @ take k (drop (position (streams w' ! s)) (oplog w'))"
           "length out = length (acc @ [change]) + k"
           "position (streams w1 ! s) = position (streams w' ! s) + k"
        by blast
      from nx have p': "position (streams w' ! s) = Suc ?p" by simp
      from nx have "[change] @ take k (drop (Suc ?p) (oplog w)) = take (Suc k) (drop ?p (oplog w))"
        using take_drop_step [of ?p "oplog w" k] by simp
      with k p' nx show ?thesis
        by (auto intro!: exI [of _ "Suc k"])
    qed
  next
    case (Raises e w')
    with "1.prems" have stop: "stop_iteration e" and "out = acc" "w1 = w'"
      by (simp_all add: unfold nx_def split: if_splits)
    with mongo_next_stop [OF Raises] show ?thesis
      by (auto intro: exI [of _ 0])
  next
    case Blocks
    with "1.prems" show ?thesis by (simp add: unfold nx_def)
  qed
qed

lemma collect_mongo_token:
  assumes "collect mongo s n [] w = Returns out w1"
  shows "stream_resume_token mongo s w1 = Some (position (streams w ! s) + length out)"
proof -
  from collect_mongo [OF assms] have "s < length (streams w1)"
    and "position (streams w1 ! s) = position (streams w ! s) + length out"
    by auto
  then show ?thesis by (simp add: mongo_def mongo_resume_token_def)
qed

lemma take_drop_prefix:
  "length (take k (drop p xs)) = k \<Longrightarrow> take k (drop p (xs @ ys)) = take k (drop p xs)"
  by (cases "p \<le> length xs") auto

lemma take_drop_snoc:
  "p + k < length xs \<Longrightarrow> take (Suc k) (drop p xs) = take k (drop p xs) @ [xs ! (p + k)]"
  by (simp add: take_Suc_conv_app_nth)

lemma markers_of_window:
  assumes "map f xs = [1..<Suc (length xs)]" and "p + k \<le> length xs"
  shows "map f (take k (drop p xs)) = [Suc p..<Suc (p + k)]"
proof -
  have "map f (take k (drop p xs)) = take k (drop p (map f xs))"
    by (simp add: take_map drop_map)
  also have "\<dots> = take k (drop p [1..<Suc (length xs)])"
    by (simp only: assms(1))
  also have "\<dots> = take k [1 + p..<Suc (length xs)]"
    by (simp only: drop_upt)
  also from assms(2) have "\<dots> = [1 + p..<1 + p + k]"
    by (intro take_upt) simp
  finally show ?thesis by simp
qed

section \<open>Scenario A on the event source\<close>

text \<open>
  Scenario A on the event source: whenever lines 27-63 complete, the events of the first
  stream followed by those of the resumed stream are consecutive entries of the log,
  starting where the first stream was opened, and the log numbers them by their place.
\<close>

lemma numbered_same_log: "oplog w1 = oplog w \<Longrightarrow> numbered p w1 = numbered p w"
  by (simp add: numbered_def)

lemma numbered_start: "numbered (length (oplog w)) w"
  by (simp add: numbered_def)

lemma take_take_drop:
  "take k (drop p xs) @ take j (drop (p + k) xs) = take (k + j) (drop p xs)"
proof -
  have "drop (p + k) xs = drop k (drop p xs)" by (simp add: add.commute)
  then show ?thesis by (simp add: take_add)
qed

lemma resume_token_phases_mongo:
  assumes "resume_token_phases mongo n w = Returns (events, new_events) w'"
  shows "events @ new_events =
           take (length events + length new_events) (drop (length (oplog w)) (oplog w')) \<and>
         numbered (length (oplog w)) w'"
proof -
  let ?p = "length (oplog w)"
  from assms obtain s w1 w2 w3 w4 s2 w5 w6 w7 where
    watch: "mongo_watch None w = Returns s w1" and
    ins: "insert_documents mongo VInt [0..n - 1] w1 = Returns () w2" and
    col: "collect mongo s n [] w2 = Returns events w3" and
    close: "mongo_close s w3 = Returns () w4" and
    resume: "mongo_watch (stream_resume_token mongo s w3) w4 = Returns s2 w5" and
    ins2: "insert_documents mongo (\<lambda>i. VStr (''resumed_'' @ str_int i)) [0..n - 1] w5
             = Returns () w6" and
    col2: "collect mongo s2 n [] w6 = Returns new_events w7" and
    close2: "mongo_close s2 w7 = Returns () w'"
    unfolding resume_token_phases_def seq_Returns_iff Let_def
    by (auto simp: mongo_def)
  from mongo_watch_None [OF watch] have
    w1: "s = length (streams w)" "oplog w1 = oplog w"
        "streams w1 = streams w @ [\<lparr>position = ?p, closed = False\<rparr>]"
    by simp_all
  from insert_documents_mongo [OF ins, of ?p] obtain ys where
    w2: "streams w2 = streams w1" "oplog w2 = oplog w1 @ ys"
        "numbered ?p w1 \<longrightarrow> numbered ?p w2"
    by blast
  from w1 w2 have pos2: "position (streams w2 ! s) = ?p" by simp
  from collect_mongo [OF col] pos2 have
    w3: "oplog w3 = oplog w2" "length (streams w3) = length (streams w2)"
        "events = take (length events) (drop ?p (oplog w2))"
        "position (streams w3 ! s) = ?p + length events" "s < length (streams w3)"
    by auto
  from w3 have tok: "stream_resume_token mongo s w3 = Some (?p + length events)"
    by (simp add: mongo_def mongo_resume_token_def)
  from mongo_close_Returns [OF close] have w4: "oplog w4 = oplog w3" by simp
  from mongo_watch_Some [OF resume [unfolded tok]] have
    w5: "s2 = length (streams w4)" "oplog w5 = oplog w4"
        "streams w5 = streams w4 @ [\<lparr>position = ?p + length events, closed = False\<rparr>]"
    by simp_all
  from insert_documents_mongo [OF ins2, of ?p] obtain zs where
    w6: "streams w6 = streams w5" "oplog w6 = oplog w5 @ zs"
        "numbered ?p w5 \<longrightarrow> numbered ?p w6"
    by blast
  from w5 w6 have pos6: "position (streams w6 ! s2) = ?p + length events" by simp
  from collect_mongo [OF col2] pos6 have
    w7: "oplog w7 = oplog w6"
        "new_events = take (length new_events) (drop (?p + length events) (oplog w6))"
    by auto
  from mongo_close_Returns [OF close2] have w': "oplog w' = oplog w7" by simp
  have log6: "oplog w6 = oplog w2 @ zs" by (simp add: w6 w5 w4 w3)
  have log': "oplog w' = oplog w6" by (simp add: w' w7)
  from w3(3) have "length (take (length events) (drop ?p (oplog w2))) = length events"
    by simp
  then have "take (length events) (drop ?p (oplog w6)) = take (length events) (drop ?p (oplog w2))"
    unfolding log6 by (rule take_drop_prefix)
  with w3(3) have ev: "events = take (length events) (drop ?p (oplog w6))" by simp
  have "events @ new_events =
      take (length events) (drop ?p (oplog w6)) @
      take (length new_events) (drop (?p + length events) (oplog w6))"
    using ev w7(2) by simp
  also have "\<dots> = take (length events + length new_events) (drop ?p (oplog w6))"
    by (rule take_take_drop)
  finally have window: "events @ new_events =
      take (length events + length new_events) (drop ?p (oplog w'))"
    by (simp add: log')
  have "numbered ?p w1" using numbered_start [of w] by (simp add: numbered_def w1)
  with w2 have "numbered ?p w2" by simp
  then have "numbered ?p w5" by (simp add: numbered_def w5 w4 w3)
  with w6 have "numbered ?p w6" by simp
  then have "numbered ?p w'" by (simp add: numbered_def log')
  with window show ?thesis by simp
qed

lemma numbered_window:
  assumes "numbered p w" and "xs = take k (drop p (oplog w))"
  shows "map sequenceMarker xs = [Suc p..<Suc p + length xs]"
proof -
  from assms(1) have le: "p \<le> length (oplog w)"
    and m: "map sequenceMarker (drop p (oplog w)) = [Suc p..<Suc (length (oplog w))]"
    by (simp_all add: numbered_def)
  have len: "length xs = min k (length (oplog w) - p)" by (simp add: assms(2))
  have "map sequenceMarker xs = take k (map sequenceMarker (drop p (oplog w)))"
    by (simp add: assms(2) take_map)
  also have "\<dots> = take (length xs) [Suc p..<Suc (length (oplog w))]"
    by (simp add: m len min_def)
  also have "\<dots> = [Suc p..<Suc p + length xs]"
    using le len by (intro take_upt) simp
  finally show ?thesis .
qed

lemma resume_token_phases_markers:
  assumes "resume_token_phases mongo n w = Returns (events, new_events) w'"
  shows "map sequenceMarker (events @ new_events) =
           [Suc (length (oplog w))..<Suc (length (oplog w)) + length (events @ new_events)]"
  using resume_token_phases_mongo [OF assms] numbered_window by blast

section \<open>Scenario A: what success means\<close>

text \<open>
  Claim C1, as amended. Whenever scenario A reaches its \<^verbatim>\<open>return\<close> with the local lists
  \<^verbatim>\<open>events\<close> and \<^verbatim>\<open>new_events\<close>, the returned \<^verbatim>\<open>success\<close> is true exactly when
  \<^verbatim>\<open>new_events\<close> holds \<open>iterations\<close> events (lines 65-69 compare the count only), for
  every driver. On the event source no post-resume event ever carries the sequence marker
  of a pre-resume event, so there \<^verbatim>\<open>success\<close> is true if and only if the post-resume
  collection yields exactly \<open>iterations\<close> events and no post-resume event duplicates a
  pre-resume one. That the post-resume events are the post-resume appends is not part
  of it: the code does not look at them.
\<close>

theorem success_is_resumed_count:
  "(resume_token_phases src iterations w = Returns (events, new_events) w' \<longrightarrow>
      (\<exists>r. test_resume_token_persistence src iterations w = Returns r w' \<and>
           r ''success'' = Some (VBool (int (length new_events) = iterations)))) \<and>
   (resume_token_phases mongo n v = Returns (evs, new_evs) v' \<longrightarrow>
      set (map sequenceMarker new_evs) \<inter> set (map sequenceMarker evs) = {} \<and>
      (\<exists>r. test_resume_token_persistence mongo n v = Returns r v' \<and>
           (r ''success'' = Some (VBool True) \<longleftrightarrow>
              int (length new_evs) = n \<and>
              set (map sequenceMarker new_evs) \<inter> set (map sequenceMarker evs) = {})))"
proof (intro conjI impI)
  assume "resume_token_phases src iterations w = Returns (events, new_events) w'"
  then show "\<exists>r. test_resume_token_persistence src iterations w = Returns r w' \<and>
           r ''success'' = Some (VBool (int (length new_events) = iterations))"
    by (simp add: test_resume_token_persistence_def resume_token_result_def)
next
  assume ph: "resume_token_phases mongo n v = Returns (evs, new_evs) v'"
  from resume_token_phases_markers [OF ph] have "distinct (map sequenceMarker (evs @ new_evs))"
    by simp
  then show disjoint: "set (map sequenceMarker new_evs) \<inter> set (map sequenceMarker evs) = {}"
    by auto
  from ph have "test_resume_token_persistence mongo n v =
      Returns (resume_token_result n evs new_evs) v'"
    by (simp add: test_resume_token_persistence_def)
  moreover have "resume_token_result n evs new_evs ''success'' = Some (VBool True) \<longleftrightarrow>
      int (length new_evs) = n \<and>
      set (map sequenceMarker new_evs) \<inter> set (map sequenceMarker evs) = {}"
    using disjoint by (simp add: resume_token_result_def)
  ultimately show "\<exists>r. test_resume_token_persistence mongo n v = Returns r v' \<and>
           (r ''success'' = Some (VBool True) \<longleftrightarrow>
              int (length new_evs) = n \<and>
              set (map sequenceMarker new_evs) \<inter> set (map sequenceMarker evs) = {})"
    by blast
qed

text \<open>
  Two runs. With four iterations and another client dropping the collection during the
  second phase, the resumed stream is invalidated after three events and \<^verbatim>\<open>success\<close> is
  false. With one iteration and another client inserting a document during the first
  phase, one event is collected after the resume, its marker is new, and \<^verbatim>\<open>success\<close> is
  true.
\<close>

theorem success_is_resumed_count_witness:
  "is_Returns (resume_token_phases mongo 4 (server 10 [[], [], [], [], [OtherDrop]] [])) \<and>
   length (snd (returned (resume_token_phases mongo 4
      (server 10 [[], [], [], [], [OtherDrop]] [])))) = 3 \<and>
   (\<exists>r. test_resume_token_persistence mongo 4 (server 10 [[], [], [], [], [OtherDrop]] []) =
          Returns r (world_after (resume_token_phases mongo 4
            (server 10 [[], [], [], [], [OtherDrop]] []))) \<and>
        r ''success'' = Some (VBool False)) \<and>
   is_Returns (resume_token_phases mongo 1 (server 10 [[OtherInsert [(''other'', VInt 1)]]] [])) \<and>
   map sequenceMarker (fst (returned (resume_token_phases mongo 1
      (server 10 [[OtherInsert [(''other'', VInt 1)]]] [])))) = [1] \<and>
   map sequenceMarker (snd (returned (resume_token_phases mongo 1
      (server 10 [[OtherInsert [(''other'', VInt 1)]]] [])))) = [2] \<and>
   (\<exists>r. test_resume_token_persistence mongo 1
          (server 10 [[OtherInsert [(''other'', VInt 1)]]] []) =
          Returns r (world_after (resume_token_phases mongo 1
            (server 10 [[OtherInsert [(''other'', VInt 1)]]] []))) \<and>
        r ''success'' = Some (VBool True))"
proof -
  define P where "P = resume_token_phases mongo 4 (server 10 [[], [], [], [], [OtherDrop]] [])"
  have ret: "is_Returns P" unfolding P_def by code_simp
  then have eq: "resume_token_phases mongo 4 (server 10 [[], [], [], [], [OtherDrop]] []) =
      Returns (fst (returned P), snd (returned P)) (world_after P)"
    by (simp add: P_def)
  have len: "length (snd (returned P)) = 3" unfolding P_def by code_simp
  from success_is_resumed_count [THEN conjunct1, THEN mp, OF eq] len
  have first: "\<exists>r. test_resume_token_persistence mongo 4
      (server 10 [[], [], [], [], [OtherDrop]] []) = Returns r (world_after P) \<and>
      r ''success'' = Some (VBool False)"
    by simp
  define Q where "Q = resume_token_phases mongo 1
      (server 10 [[OtherInsert [(''other'', VInt 1)]]] [])"
  have retq: "is_Returns Q" unfolding Q_def by code_simp
  then have eqq: "resume_token_phases mongo 1 (server 10 [[OtherInsert [(''other'', VInt 1)]]] [])
      = Returns (fst (returned Q), snd (returned Q)) (world_after Q)"
    by (simp add: Q_def)
  have m1: "map sequenceMarker (fst (returned Q)) = [1]" unfolding Q_def by code_simp
  have m2: "map sequenceMarker (snd (returned Q)) = [2]" unfolding Q_def by code_simp
  then have lenq: "int (length (snd (returned Q))) = 1"
    by (cases "snd (returned Q)") auto
  from success_is_resumed_count [THEN conjunct2, THEN mp, OF eqq] lenq
  have second: "\<exists>r. test_resume_token_persistence mongo 1
      (server 10 [[OtherInsert [(''other'', VInt 1)]]] []) = Returns r (world_after Q) \<and>
      r ''success'' = Some (VBool True)"
    by auto
  from ret len first retq m1 m2 second show ?thesis
    unfolding P_def Q_def by (intro conjI)
qed

text \<open>
  The claim as first stated fails: with \<open>iterations = 1\<close> and another client inserting a
  document right after the program's first insert, the resumed stream delivers that
  document, not the \<^verbatim>\<open>resumed_0\<close> one the program appended after resuming, and
  \<^verbatim>\<open>success\<close> is true.
\<close>

theorem success_with_foreign_event:
  "is_Returns (test_resume_token_persistence mongo 1
      (server 10 [[OtherInsert [(''other'', VInt 1)]]] [])) \<and>
   returned (test_resume_token_persistence mongo 1
      (server 10 [[OtherInsert [(''other'', VInt 1)]]] [])) ''success'' = Some (VBool True) \<and>
   map payload (snd (returned (resume_token_phases mongo 1
      (server 10 [[OtherInsert [(''other'', VInt 1)]]] [])))) = [[(''other'', VInt 1)]] \<and>
   map payload (snd (returned (resume_token_phases mongo 1
      (server 10 [[OtherInsert [(''other'', VInt 1)]]] [])))) \<noteq>
     [[(''test'', VStr ''resumed_0''), (''timestamp'', VTime 0)]] \<and>
   map payload (oplog (world_after (resume_token_phases mongo 1
      (server 10 [[OtherInsert [(''other'', VInt 1)]]] [])))) =
     [[(''test'', VInt 0), (''timestamp'', VTime 0)],
      [(''other'', VInt 1)],
      [(''test'', VStr ''resumed_0''), (''timestamp'', VTime 0)]]"
  by code_simp

section \<open>Resuming from a captured token\<close>

text \<open>
  Claim C2. On the event source, let a consumer collect \<open>K \<ge> 1\<close> events from a stream
  with the loop of lines 37-41 and then do what lines 43-56 do: read the token, close the
  stream, open a new stream at the token, insert. The \<open>K\<close> collected events are the log
  entries from the position the first stream started at. The first step of the new
  stream, when the connection does not fail at it, delivers the entry that follows them
  if the log holds one, and waits if it does not: it never delivers the \<open>K\<close>-th event
  again and never skips an entry. Whatever it delivers, the collected events and the new
  one are \<open>K + 1\<close> consecutive entries, with consecutive sequence markers where the log
  numbers its events in order. In scenario A itself, whenever lines 27-63 complete, the
  events of the first stream followed by those of the resumed stream are consecutive
  entries of the log with consecutive markers.
\<close>

theorem resume_delivers_next_event:
  assumes "1 \<le> K"
    and collected: "collect mongo s (int K) [] w = Returns evs w1" and "length evs = K"
    and closing: "stream_close mongo s w1 = Returns u w2"
    and resumed: "collection_watch mongo (stream_resume_token mongo s w1) w2 = Returns s2 w3"
    and appended: "insert_documents mongo mk ns w3 = Returns u' w4"
  shows "evs = take K (drop (position (streams w ! s)) (oplog w4)) \<and>
         (map_of (faults w4) (calls w4) = None \<and>
          position (streams w ! s) + K < length (oplog w4) \<longrightarrow>
            (\<exists>w5. stream_next mongo s2 w4 =
                     Returns (oplog w4 ! (position (streams w ! s) + K)) w5)) \<and>
         (map_of (faults w4) (calls w4) = None \<and>
          length (oplog w4) \<le> position (streams w ! s) + K \<longrightarrow>
            stream_next mongo s2 w4 = Blocks) \<and>
         (stream_next mongo s2 w4 = Returns e w5 \<longrightarrow>
            evs @ [e] = take (K + 1) (drop (position (streams w ! s)) (oplog w5)) \<and>
            (log_ordered w5 \<longrightarrow>
               map sequenceMarker (evs @ [e]) =
                 [position (streams w ! s) + 1..<position (streams w ! s) + K + 2])) \<and>
         (resume_token_phases mongo n v = Returns (events, new_events) v' \<longrightarrow>
            events @ new_events =
              take (length events + length new_events) (drop (length (oplog v)) (oplog v')) \<and>
            map sequenceMarker (events @ new_events) =
              [Suc (length (oplog v))..<
               Suc (length (oplog v)) + length (events @ new_events)])"
proof -
  let ?p = "position (streams w ! s)"
  from collect_mongo [OF collected] assms(3) have
    s: "s < length (streams w1)" and log1: "oplog w1 = oplog w" and
    evs: "evs = take K (drop ?p (oplog w))" and pos1: "position (streams w1 ! s) = ?p + K"
    by auto
  from s pos1 have tok: "stream_resume_token mongo s w1 = Some (?p + K)"
    by (simp add: mongo_def mongo_resume_token_def)
  from closing have c: "oplog w2 = oplog w1" "length (streams w2) = length (streams w1)"
    using mongo_close_Returns [of s w1 u w2] by (simp_all add: mongo_def)
  from resumed tok have "mongo_watch (Some (?p + K)) w2 = Returns s2 w3"
    by (simp add: mongo_def)
  from mongo_watch_Some [OF this] have
    w3: "s2 = length (streams w2)" "oplog w3 = oplog w2"
        "streams w3 = streams w2 @ [\<lparr>position = ?p + K, closed = False\<rparr>]"
    by simp_all
  from insert_documents_mongo [OF appended, of 0] obtain later where
    w4: "streams w4 = streams w3" "oplog w4 = oplog w3 @ later"
    by blast
  from w3 w4 have handle: "s2 < length (streams w4)" "\<not> closed (streams w4 ! s2)"
    "position (streams w4 ! s2) = ?p + K"
    by simp_all
  from w4 w3 c log1 have log4: "oplog w4 = oplog w @ later" by simp
  from evs assms(3) have "length (take K (drop ?p (oplog w))) = K" by simp
  then have "take K (drop ?p (oplog w4)) = evs"
    unfolding log4 evs by (rule take_drop_prefix)
  then have collected_window: "evs = take K (drop ?p (oplog w4))" by simp
  have next_step: "stream_next mongo s2 w4 =
      (if ?p + K < length (oplog w4)
       then Returns (oplog w4 ! (?p + K))
              (w4\<lparr>calls := calls w4 + 1,
                 streams := (streams w4)[s2 :=
                   \<lparr>position = Suc (?p + K),
                    closed = (operationType (oplog w4 ! (?p + K)) = ''invalidate'')\<rparr>]\<rparr>)
       else Blocks)"
    if "map_of (faults w4) (calls w4) = None"
    using mongo_next_fresh [OF handle(1,2) that] by (simp add: mongo_def handle(3))
  have delivers: "\<exists>w5. stream_next mongo s2 w4 = Returns (oplog w4 ! (?p + K)) w5"
    if "map_of (faults w4) (calls w4) = None \<and> ?p + K < length (oplog w4)"
    using next_step that by simp
  have waits: "stream_next mongo s2 w4 = Blocks"
    if "map_of (faults w4) (calls w4) = None \<and> length (oplog w4) \<le> ?p + K"
    using next_step that by simp
  have delivered: "evs @ [e] = take (K + 1) (drop ?p (oplog w5)) \<and>
      (log_ordered w5 \<longrightarrow> map sequenceMarker (evs @ [e]) = [?p + 1..<?p + K + 2])"
    if first: "stream_next mongo s2 w4 = Returns e w5"
  proof -
    from first have "mongo_next s2 w4 = Returns e w5" by (simp add: mongo_def)
    from mongo_next_Returns [OF this] handle have
      e: "?p + K < length (oplog w4)" "e = oplog w4 ! (?p + K)" and log5: "oplog w5 = oplog w4"
      by simp_all
    from take_drop_snoc [OF e(1)] e(2) collected_window have
      window: "evs @ [e] = take (K + 1) (drop ?p (oplog w5))"
      by (simp add: log5)
    have "map sequenceMarker (evs @ [e]) = [?p + 1..<?p + K + 2]" if "log_ordered w5"
    proof -
      from that have "map sequenceMarker (oplog w5) = [1..<Suc (length (oplog w5))]"
        by (simp add: log_ordered_def)
      moreover from e(1) have "?p + (K + 1) \<le> length (oplog w5)" by (simp add: log5)
      ultimately show ?thesis
        unfolding window using markers_of_window [of sequenceMarker "oplog w5" ?p "K + 1"]
        by simp
    qed
    with window show ?thesis by blast
  qed
  have scenario: "events @ new_events =
              take (length events + length new_events) (drop (length (oplog v)) (oplog v')) \<and>
            map sequenceMarker (events @ new_events) =
              [Suc (length (oplog v))..<
               Suc (length (oplog v)) + length (events @ new_events)]"
    if "resume_token_phases mongo n v = Returns (events, new_events) v'"
    using resume_token_phases_mongo [OF that] resume_token_phases_markers [OF that] by blast
  from collected_window delivers waits delivered scenario show ?thesis by blast
qed

text \<open>
  Three runs on a server with an empty log. Three inserts, three events collected, a
  resume, one more insert: the resumed stream delivers the fourth log entry, the document
  inserted after the resume. One insert, one event collected, a resume and no further
  insert: the resumed stream waits. Scenario A with two iterations: the four collected
  events carry the markers 1 to 4.
\<close>

theorem resume_delivers_next_event_witness:
  "let c = collect mongo 0 3 [] (watching 3 (server 10 [] []));
       w2 = world_after (stream_close mongo 0 (world_after c));
       r = collection_watch mongo (stream_resume_token mongo 0 (world_after c)) w2;
       i = insert_documents mongo (\<lambda>i. VStr (''resumed_'' @ str_int i)) [0..0] (world_after r);
       n = stream_next mongo (returned r) (world_after i);
       c' = collect mongo 0 1 [] (watching 1 (server 10 [] []));
       w2' = world_after (stream_close mongo 0 (world_after c'));
       r' = collection_watch mongo (stream_resume_token mongo 0 (world_after c')) w2';
       a = resume_token_phases mongo 2 (server 10 [] [])
   in (1::nat) \<le> 3 \<and> is_Returns c \<and> length (returned c) = 3 \<and> is_Returns r \<and> is_Returns i \<and>
      is_Returns n \<and> log_ordered (world_after n) \<and>
      map sequenceMarker (returned c @ [returned n]) = [1, 2, 3, 4] \<and>
      payload (returned n) = [(''test'', VStr ''resumed_0''), (''timestamp'', VTime 0)] \<and>
      is_Returns c' \<and> length (returned c') = 1 \<and> is_Returns r' \<and>
      stream_next mongo (returned r') (world_after r') = Blocks \<and>
      is_Returns a \<and>
      map sequenceMarker (fst (returned a) @ snd (returned a)) = [1, 2, 3, 4]"
proof -
  define w where "w = watching 3 (server 10 [] [])"
  define c where "c = collect mongo 0 3 [] w"
  define w2 where "w2 = world_after (stream_close mongo 0 (world_after c))"
  define r where "r = collection_watch mongo (stream_resume_token mongo 0 (world_after c)) w2"
  define i where "i = insert_documents mongo (\<lambda>i. VStr (''resumed_'' @ str_int i)) [0..0]
                        (world_after r)"
  define n where "n = stream_next mongo (returned r) (world_after i)"
  define a where "a = resume_token_phases mongo 2 (server 10 [] [])"
  note defs = n_def i_def r_def w2_def c_def w_def
  have k: "1 \<le> (3::nat)" by simp
  have c: "is_Returns c" unfolding defs by code_simp
  have len: "length (returned c) = 3" unfolding defs by code_simp
  have cl: "stream_close mongo 0 (world_after c) = Returns () w2"
    unfolding defs by code_simp
  have r: "is_Returns r" unfolding defs by code_simp
  have i: "is_Returns i" unfolding defs by code_simp
  have pos: "position (streams w ! 0) = 0" unfolding defs by code_simp
  from c have c_eq: "collect mongo 0 (int 3) [] w = Returns (returned c) (world_after c)"
    by (simp add: c_def)
  from r have r_eq: "collection_watch mongo (stream_resume_token mongo 0 (world_after c)) w2 =
      Returns (returned r) (world_after r)"
    by (simp add: r_def)
  from i have i_eq: "insert_documents mongo (\<lambda>i. VStr (''resumed_'' @ str_int i)) [0..0]
      (world_after r) = Returns () (world_after i)"
    unfolding i_def
    by (cases "insert_documents mongo (\<lambda>i. VStr (''resumed_'' @ str_int i)) [0..0] (world_after r)")
       simp_all
  note facts = resume_delivers_next_event [OF k c_eq len cl r_eq i_eq]
  \<comment> \<open>the delivery is derived, not assumed\<close>
  have quiet: "map_of (faults (world_after i)) (calls (world_after i)) = None"
    unfolding defs by code_simp
  have held: "position (streams w ! 0) + 3 < length (oplog (world_after i))"
    unfolding defs by code_simp
  from facts [THEN conjunct2, THEN conjunct1] quiet held obtain w5 where
    nx: "stream_next mongo (returned r) (world_after i) =
           Returns (oplog (world_after i) ! (position (streams w ! 0) + 3)) w5"
    by blast
  then have n: "is_Returns n" and e: "returned n = oplog (world_after i) ! (position (streams w ! 0) + 3)"
    and w5: "w5 = world_after n"
    by (simp_all add: n_def)
  have ord: "log_ordered (world_after n)" unfolding defs by code_simp
  from nx e w5 have nx': "stream_next mongo (returned r) (world_after i) =
      Returns (returned n) (world_after n)"
    by simp
  from facts [THEN conjunct2, THEN conjunct2, THEN conjunct2, THEN conjunct1, THEN mp, OF nx',
      THEN conjunct2, THEN mp, OF ord]
  have "map sequenceMarker (returned c @ [returned n]) =
      [position (streams w ! 0) + 1..<position (streams w ! 0) + 3 + 2]" .
  also have "\<dots> = [1, 2, 3, 4]"
    unfolding pos by (simp add: upt_rec)
  finally have markers: "map sequenceMarker (returned c @ [returned n]) = [1, 2, 3, 4]" .
  have pay: "payload (returned n) = [(''test'', VStr ''resumed_0''), (''timestamp'', VTime 0)]"
    unfolding defs by code_simp
  \<comment> \<open>scenario A\<close>
  have a: "is_Returns a" unfolding a_def by code_simp
  then have a_eq: "resume_token_phases mongo 2 (server 10 [] []) =
      Returns (fst (returned a), snd (returned a)) (world_after a)"
    by (simp add: a_def)
  have lens: "length (fst (returned a) @ snd (returned a)) = 4" unfolding a_def by code_simp
  have empty: "length (oplog (server 10 [] [])) = 0" by code_simp
  from facts [THEN conjunct2, THEN conjunct2, THEN conjunct2, THEN conjunct2, THEN mp, OF a_eq]
  have "map sequenceMarker (fst (returned a) @ snd (returned a)) =
      [Suc (length (oplog (server 10 [] [])))..<
       Suc (length (oplog (server 10 [] []))) + length (fst (returned a) @ snd (returned a))]"
    by blast
  also have "\<dots> = [1, 2, 3, 4]"
    unfolding lens empty by (simp add: upt_rec)
  finally have scenario: "map sequenceMarker (fst (returned a) @ snd (returned a)) = [1, 2, 3, 4]" .
  \<comment> \<open>nothing appended after the resume\<close>
  define v where "v = watching 1 (server 10 [] [])"
  define c' where "c' = collect mongo 0 1 [] v"
  define w2' where "w2' = world_after (stream_close mongo 0 (world_after c'))"
  define r' where "r' = collection_watch mongo (stream_resume_token mongo 0 (world_after c')) w2'"
  note defs' = r'_def w2'_def c'_def v_def
  have k': "1 \<le> (1::nat)" by simp
  have c': "is_Returns c'" unfolding defs' by code_simp
  have len': "length (returned c') = 1" unfolding defs' by code_simp
  have cl': "stream_close mongo 0 (world_after c') = Returns () w2'"
    unfolding defs' by code_simp
  have r': "is_Returns r'" unfolding defs' by code_simp
  from c' have c'_eq: "collect mongo 0 (int 1) [] v = Returns (returned c') (world_after c')"
    by (simp add: c'_def)
  from r' have r'_eq: "collection_watch mongo (stream_resume_token mongo 0 (world_after c')) w2' =
      Returns (returned r') (world_after r')"
    by (simp add: r'_def)
  have i'_eq: "insert_documents mongo VInt [] (world_after r') = Returns () (world_after r')"
    by simp
  have quiet': "map_of (faults (world_after r')) (calls (world_after r')) = None"
    unfolding defs' by code_simp
  have short: "length (oplog (world_after r')) \<le> position (streams v ! 0) + 1"
    unfolding defs' by code_simp
  from resume_delivers_next_event [OF k' c'_eq len' cl' r'_eq i'_eq,
      THEN conjunct2, THEN conjunct2, THEN conjunct1] quiet' short
  have waits: "stream_next mongo (returned r') (world_after r') = Blocks"
    by blast
  from c len r i n ord markers pay c' len' r' waits a scenario show ?thesis
    unfolding defs defs' a_def Let_def by simp
qed

section \<open>Errors and the run\<close>

text \<open>
  Claim C3. Scenario-level errors raised during either scenario are caught and turned
  into a result with \<^verbatim>\<open>success\<close> false and the error recorded, and never leave
  \<^verbatim>\<open>run_all_tests\<close>; in particular a resume failure in
  \<^verbatim>\<open>test_resume_token_persistence\<close>. The program does not do this. Its durability
  scenario guards \<^verbatim>\<open>watch(resume_after=...)\<close> with a \<^verbatim>\<open>try\<close> (lines 91-115), but the same
  call at line 50 of \<^verbatim>\<open>test_resume_token_persistence\<close> is not guarded, and
  \<^verbatim>\<open>run_all_tests\<close> has no handler. What the program does when the connection fails at
  the fifteenth driver call of a run, which is the call of line 50: \<^verbatim>\<open>setup\<close> has
  returned, the exception leaves \<^verbatim>\<open>test_resume_token_persistence\<close> and
  \<^verbatim>\<open>run_all_tests\<close>, and no result is produced. When the same failure comes at the
  thirty-first call, the resume of the durability scenario (line 92), the run returns both
  results, with the error recorded in the second.
\<close>

theorem resume_failure_aborts_run:
  "is_Returns (setup_collection mongo
      (server 10 [] [(14, Exn ''OperationFailure'' ''resume failed'')])) \<and>
   is_Raises (test_resume_token_persistence mongo 5 (world_after (setup_collection mongo
      (server 10 [] [(14, Exn ''OperationFailure'' ''resume failed'')])))) \<and>
   is_Raises (run_all_tests mongo (server 10 [] [(14, Exn ''OperationFailure'' ''resume failed'')])) \<and>
   raised (run_all_tests mongo (server 10 [] [(14, Exn ''OperationFailure'' ''resume failed'')])) =
     Exn ''OperationFailure'' ''resume failed'' \<and>
   calls (world_at_raise (run_all_tests mongo
          (server 10 [] [(14, Exn ''OperationFailure'' ''resume failed'')]))) = 15 \<and>
   is_Returns (run_all_tests mongo (server 10 [] [(30, Exn ''OperationFailure'' ''resume failed'')])) \<and>
   the (returned (run_all_tests mongo
          (server 10 [] [(30, Exn ''OperationFailure'' ''resume failed'')])) ''durability_test'')
     ''error'' = Some (VStr ''resume failed'')"
proof (intro conjI)
  show "is_Returns (setup_collection mongo
      (server 10 [] [(14, Exn ''OperationFailure'' ''resume failed'')]))"
    by code_simp
  show "is_Raises (test_resume_token_persistence mongo 5 (world_after (setup_collection mongo
      (server 10 [] [(14, Exn ''OperationFailure'' ''resume failed'')]))))"
    by code_simp
  show "is_Raises (run_all_tests mongo
      (server 10 [] [(14, Exn ''OperationFailure'' ''resume failed'')]))"
    by code_simp
  show "raised (run_all_tests mongo
      (server 10 [] [(14, Exn ''OperationFailure'' ''resume failed'')])) =
     Exn ''OperationFailure'' ''resume failed''"
    by code_simp
  show "calls (world_at_raise (run_all_tests mongo
          (server 10 [] [(14, Exn ''OperationFailure'' ''resume failed'')]))) = 15"
    by code_simp
  show "is_Returns (run_all_tests mongo
      (server 10 [] [(30, Exn ''OperationFailure'' ''resume failed'')]))"
    by code_simp
  show "the (returned (run_all_tests mongo
          (server 10 [] [(30, Exn ''OperationFailure'' ''resume failed'')])) ''durability_test'')
     ''error'' = Some (VStr ''resume failed'')"
    by code_simp
qed

section \<open>Scenario B: what success means\<close>

text \<open>
  Claim C4, as amended. In \<^verbatim>\<open>test_stream_durability\<close>, when the body of the \<^verbatim>\<open>try\<close>
  completes (the resume succeeded), \<^verbatim>\<open>success\<close> is true exactly when the loop of lines
  95-98 collected an event, and it collects at most one. Line 105 tests
  \<^verbatim>\<open>len(post_disconnect_events) > 0\<close> only; the delivered document is not inspected.
\<close>

theorem durability_success_is_any_event:
  assumes "disconnect_phase src d w = Returns (pre, tok) w1"
    and "resume_phase src tok w1 = Returns post w2"
  shows "\<exists>r. test_stream_durability src d w = Returns r w2 \<and>
           r ''success'' = Some (VBool (post \<noteq> [])) \<and> length post \<le> 1"
  using test_stream_durability_completed [OF assms] resume_phase_length [OF assms(2)]
  by (simp add: durability_result_def)

text \<open>
  The run of the spec's example: a disconnect of 5 seconds under a window of 10.
\<close>

theorem durability_success_is_any_event_witness:
  "is_Returns (disconnect_phase mongo 5 (server 10 [] [])) \<and>
   is_Returns (resume_phase mongo (snd (returned (disconnect_phase mongo 5 (server 10 [] []))))
      (world_after (disconnect_phase mongo 5 (server 10 [] [])))) \<and>
   map payload (returned (resume_phase mongo
      (snd (returned (disconnect_phase mongo 5 (server 10 [] []))))
      (world_after (disconnect_phase mongo 5 (server 10 [] []))))) =
     [[(''phase'', VStr ''post-disconnect''), (''timestamp'', VTime 5)]] \<and>
   (\<exists>r w'. test_stream_durability mongo 5 (server 10 [] []) = Returns r w' \<and>
        r ''success'' = Some (VBool True))"
proof -
  let ?P = "disconnect_phase mongo 5 (server 10 [] [])"
  let ?R = "resume_phase mongo (snd (returned ?P)) (world_after ?P)"
  have p: "is_Returns ?P" by code_simp
  then have p_eq: "?P = Returns (fst (returned ?P), snd (returned ?P)) (world_after ?P)" by simp
  have r: "is_Returns ?R" by code_simp
  then have r_eq: "?R = Returns (returned ?R) (world_after ?R)" by simp
  have pay: "map payload (returned ?R) =
     [[(''phase'', VStr ''post-disconnect''), (''timestamp'', VTime 5)]]" by code_simp
  then have "returned ?R \<noteq> []" by auto
  with durability_success_is_any_event [OF p_eq r_eq] p r pay show ?thesis by auto
qed

text \<open>
  The claim as first stated fails: another client inserts a document right after the
  pre-disconnect insert, the resumed stream delivers it first, and
  \<^verbatim>\<open>success\<close> is true although the delivered event is not the
  post-disconnect document.
\<close>

theorem durability_success_with_foreign_event:
  "is_Returns (test_stream_durability mongo 5
      (server 10 [[OtherInsert [(''other'', VInt 1)]]] [])) \<and>
   returned (test_stream_durability mongo 5
      (server 10 [[OtherInsert [(''other'', VInt 1)]]] [])) ''success'' = Some (VBool True) \<and>
   map payload (returned (resume_phase mongo
      (snd (returned (disconnect_phase mongo 5 (server 10 [[OtherInsert [(''other'', VInt 1)]]] []))))
      (world_after (disconnect_phase mongo 5 (server 10 [[OtherInsert [(''other'', VInt 1)]]] [])))))
     = [[(''other'', VInt 1)]] \<and>
   map payload (returned (resume_phase mongo
      (snd (returned (disconnect_phase mongo 5 (server 10 [[OtherInsert [(''other'', VInt 1)]]] []))))
      (world_after (disconnect_phase mongo 5 (server 10 [[OtherInsert [(''other'', VInt 1)]]] [])))))
     \<noteq> [[(''phase'', VStr ''post-disconnect''), (''timestamp'', VTime 5)]] \<and>
   map payload (oplog (world_after (test_stream_durability mongo 5
      (server 10 [[OtherInsert [(''other'', VInt 1)]]] [])))) =
     [[(''phase'', VStr ''pre-disconnect''), (''timestamp'', VTime 0)],
      [(''other'', VInt 1)],
      [(''phase'', VStr ''post-disconnect''), (''timestamp'', VTime 5)]]"
  by code_simp

section \<open>Scenario B: a failed resume\<close>

text \<open>
  Claim C5. In \<^verbatim>\<open>test_stream_durability\<close>, if \<^verbatim>\<open>watch(resume_after=resume_token)\<close> raises
  after the pre-disconnect part has completed, the scenario returns a dict with
  \<^verbatim>\<open>success\<close> false, \<^verbatim>\<open>error\<close> the string of the exception, and \<^verbatim>\<open>pre_disconnect_events\<close>
  the number of events collected before the disconnect.
\<close>

theorem resume_error_reported:
  assumes "disconnect_phase src d w = Returns (pre, tok) w1"
    and "collection_watch src tok w1 = Raises e w2"
  shows "\<exists>r. test_stream_durability src d w = Returns r w2 \<and>
           r ''success'' = Some (VBool False) \<and>
           r ''error'' = Some (VStr (str_exn e)) \<and>
           r ''pre_disconnect_events'' = Some (VInt (int (length pre)))"
proof -
  from assms(2) have "resume_phase src tok w1 = Raises e w2"
    by (simp add: resume_phase_Raises)
  from test_stream_durability_caught [OF assms(1) this] show ?thesis
    by (simp add: durability_failure_def)
qed

text \<open>
  A disconnect of 5 seconds under a retention window of 3.
\<close>

theorem resume_error_reported_witness:
  "is_Returns (disconnect_phase mongo 5 (server 3 [] [])) \<and>
   is_Raises (collection_watch mongo (snd (returned (disconnect_phase mongo 5 (server 3 [] []))))
      (world_after (disconnect_phase mongo 5 (server 3 [] [])))) \<and>
   (\<exists>r w'. test_stream_durability mongo 5 (server 3 [] []) = Returns r w' \<and>
        r ''success'' = Some (VBool False) \<and>
        r ''error'' = Some (VStr ''cannot resume: resume point no longer retained'') \<and>
        r ''pre_disconnect_events'' = Some (VInt 1))"
proof -
  let ?P = "disconnect_phase mongo 5 (server 3 [] [])"
  let ?W = "collection_watch mongo (snd (returned ?P)) (world_after ?P)"
  have p: "is_Returns ?P" by code_simp
  then have p_eq: "?P = Returns (fst (returned ?P), snd (returned ?P)) (world_after ?P)" by simp
  have w: "is_Raises ?W" by code_simp
  then have w_eq: "?W = Raises (raised ?W) (world_at_raise ?W)" by simp
  have msg: "str_exn (raised ?W) = ''cannot resume: resume point no longer retained''"
    by code_simp
  have n: "length (fst (returned ?P)) = 1" by code_simp
  from resume_error_reported [OF p_eq w_eq] p w show ?thesis
    unfolding msg n by auto
qed

section \<open>What the collection loop returns\<close>

text \<open>
  Claim C6, as amended. For every \<open>count \<ge> 1\<close>, the collection loop (lines 37-41 and
  58-61) pulls events by repeated \<open>next\<close> steps and returns exactly \<open>count\<close> events once
  the stream has delivered that many. It returns fewer only when the stream ends (the step
  raises \<^verbatim>\<open>StopIteration\<close>, as the step of a closed handle does): with \<open>M < count\<close>
  events delivered before the end it returns exactly those \<open>M\<close> events and raises nothing.
  There is no timeout: if the stream stays open with fewer than \<open>count\<close> events to
  deliver the loop never returns, and if a step raises anything but \<^verbatim>\<open>StopIteration\<close>,
  the loop raises it. Whenever the loop returns it holds at most \<open>count\<close> events, and on
  the event source the token read after it marks the position just after the last returned
  event.
\<close>

theorem collect_until_count_or_stream_end:
  assumes "1 \<le> count" and "deliveries src cs evs w = Some w1"
  shows "(int (length evs) = count \<longrightarrow> collect src cs count [] w = Returns evs w1) \<and>
         (int (length evs) < count \<longrightarrow>
            (stream_next src cs w1 = Raises e w2 \<and> stop_iteration e \<longrightarrow>
               collect src cs count [] w = Returns evs w2) \<and>
            (stream_next src cs w1 = Blocks \<longrightarrow> collect src cs count [] w = Blocks) \<and>
            (stream_next src cs w1 = Raises e w2 \<and> \<not> stop_iteration e \<longrightarrow>
               collect src cs count [] w = Raises e w2)) \<and>
         (collect mongo s count [] v = Returns out v1 \<longrightarrow>
            int (length out) \<le> count \<and>
            stream_resume_token mongo s v1 = Some (position (streams v ! s) + length out))"
proof (intro conjI impI)
  assume "int (length evs) = count"
  with assms show "collect src cs count [] w = Returns evs w1"
    by (intro collect_exact)
next
  assume "int (length evs) < count" and "stream_next src cs w1 = Raises e w2 \<and> stop_iteration e"
  then show "collect src cs count [] w = Returns evs w2"
    by (simp add: collect_stopped [OF assms(2)])
next
  assume "int (length evs) < count" and "stream_next src cs w1 = Blocks"
  then show "collect src cs count [] w = Blocks"
    by (simp add: collect_stopped [OF assms(2)])
next
  assume "int (length evs) < count" and "stream_next src cs w1 = Raises e w2 \<and> \<not> stop_iteration e"
  then show "collect src cs count [] w = Raises e w2"
    by (simp add: collect_stopped [OF assms(2)])
next
  assume "collect mongo s count [] v = Returns out v1"
  moreover from assms(1) have "int (length ([]::event list)) < count" by simp
  ultimately show "int (length out) \<le> count"
    by (rule collect_length_le)
next
  assume "collect mongo s count [] v = Returns out v1"
  then show "stream_resume_token mongo s v1 = Some (position (streams v ! s) + length out)"
    by (rule collect_mongo_token)
qed

text \<open>
  Four runs on the event source: two events for a count of 2; a stream invalidated by
  another client's drop after three events, for a count of 5; one event for a count of 2
  on a stream that stays open; a connection that fails at the second step.
\<close>

theorem collect_until_count_or_stream_end_witness:
  "collect mongo 0 2 [] (watching 2 (server 10 [] [])) =
     Returns (oplog (watching 2 (server 10 [] [])))
       (the (deliveries mongo 0 (oplog (watching 2 (server 10 [] [])))
          (watching 2 (server 10 [] [])))) \<and>
   length (oplog (watching 2 (server 10 [] []))) = 2 \<and>
   is_Returns (collect mongo 0 5 [] (watching 1 (server 10 [[OtherDrop]] []))) \<and>
   returned (collect mongo 0 5 [] (watching 1 (server 10 [[OtherDrop]] []))) =
     oplog (watching 1 (server 10 [[OtherDrop]] [])) \<and>
   length (oplog (watching 1 (server 10 [[OtherDrop]] []))) = 3 \<and>
   stream_resume_token mongo 0
     (world_after (collect mongo 0 5 [] (watching 1 (server 10 [[OtherDrop]] [])))) = Some 3 \<and>
   collect mongo 0 2 [] (watching 1 (server 10 [] [])) = Blocks \<and>
   is_Raises (collect mongo 0 2 [] (watching 1 (server 10 [] [(3, Exn ''AutoReconnect'' ''connection lost'')])))"
proof -
  have c2: "(1::int) \<le> 2" and c5: "(1::int) \<le> 5" by simp_all
  \<comment> \<open>exactly \<open>count\<close> events\<close>
  define A where "A = watching 2 (server 10 [] [])"
  have "deliveries mongo 0 (oplog A) A \<noteq> None" unfolding A_def by code_simp
  then have dA: "deliveries mongo 0 (oplog A) A = Some (the (deliveries mongo 0 (oplog A) A))"
    by simp
  have lenA: "length (oplog A) = 2" unfolding A_def by code_simp
  from collect_until_count_or_stream_end [OF c2 dA, THEN conjunct1] lenA
  have exact: "collect mongo 0 2 [] A = Returns (oplog A) (the (deliveries mongo 0 (oplog A) A))"
    by simp
  \<comment> \<open>the stream ends after three events\<close>
  define B where "B = watching 1 (server 10 [[OtherDrop]] [])"
  define B1 where "B1 = the (deliveries mongo 0 (oplog B) B)"
  define N where "N = stream_next mongo 0 B1"
  have "deliveries mongo 0 (oplog B) B \<noteq> None" unfolding B_def by code_simp
  then have dB: "deliveries mongo 0 (oplog B) B = Some B1" by (simp add: B1_def)
  have lenB: "length (oplog B) = 3" unfolding B_def by code_simp
  have "is_Raises N" unfolding N_def B1_def B_def by code_simp
  then have nB: "stream_next mongo 0 B1 = Raises (raised N) (world_at_raise N)"
    by (simp add: N_def)
  have stopB: "stop_iteration (raised N)" unfolding N_def B1_def B_def by code_simp
  from collect_until_count_or_stream_end [OF c5 dB, THEN conjunct2, THEN conjunct1] lenB nB stopB
  have ended: "collect mongo 0 5 [] B = Returns (oplog B) (world_at_raise N)"
    by simp
  from collect_until_count_or_stream_end
    [OF c5 dB, THEN conjunct2, THEN conjunct2, THEN mp, OF ended]
  have "stream_resume_token mongo 0 (world_at_raise N) =
      Some (position (streams B ! 0) + length (oplog B))"
    by simp
  moreover have "position (streams B ! 0) = 0" unfolding B_def by code_simp
  ultimately have token: "stream_resume_token mongo 0 (world_at_raise N) = Some 3"
    by (simp add: lenB)
  \<comment> \<open>the stream stays open with one event\<close>
  define C where "C = watching 1 (server 10 [] [])"
  define C1 where "C1 = the (deliveries mongo 0 (oplog C) C)"
  have "deliveries mongo 0 (oplog C) C \<noteq> None" unfolding C_def by code_simp
  then have dC: "deliveries mongo 0 (oplog C) C = Some C1" by (simp add: C1_def)
  have lenC: "length (oplog C) = 1" unfolding C_def by code_simp
  have "is_Blocks (stream_next mongo 0 C1)" unfolding C1_def C_def by code_simp
  then have nC: "stream_next mongo 0 C1 = Blocks"
    by (cases "stream_next mongo 0 C1") simp_all
  from collect_until_count_or_stream_end [OF c2 dC, THEN conjunct2, THEN conjunct1] lenC nC
  have waits: "collect mongo 0 2 [] C = Blocks"
    by simp
  \<comment> \<open>the connection fails at the second iteration\<close>
  define D where "D = watching 1 (server 10 [] [(3, Exn ''AutoReconnect'' ''connection lost'')])"
  define D1 where "D1 = the (deliveries mongo 0 (take 1 (oplog D)) D)"
  define M where "M = stream_next mongo 0 D1"
  have "deliveries mongo 0 (take 1 (oplog D)) D \<noteq> None" unfolding D_def by code_simp
  then have dD: "deliveries mongo 0 (take 1 (oplog D)) D = Some D1" by (simp add: D1_def)
  have lenD: "length (take 1 (oplog D)) = 1" unfolding D_def by code_simp
  have "is_Raises M" unfolding M_def D1_def D_def by code_simp
  then have nD: "stream_next mongo 0 D1 = Raises (raised M) (world_at_raise M)"
    by (simp add: M_def)
  have errD: "\<not> stop_iteration (raised M)" unfolding M_def D1_def D_def by code_simp
  from collect_until_count_or_stream_end [OF c2 dD, THEN conjunct2, THEN conjunct1] lenD nD errD
  have "collect mongo 0 2 [] D = Raises (raised M) (world_at_raise M)"
    by simp
  then have fails: "is_Raises (collect mongo 0 2 [] D)" by simp
  from ended have "is_Returns (collect mongo 0 5 [] B)"
    and "returned (collect mongo 0 5 [] B) = oplog B"
    and "world_after (collect mongo 0 5 [] B) = world_at_raise N"
    by simp_all
  with exact lenA lenB token waits fails show ?thesis
    unfolding A_def B_def C_def D_def by simp
qed

text \<open>
  The claim as first stated fails: with one event to deliver and a count of 2 the loop waits
  and never returns that event; with a count of 0 it returns one event.
\<close>

theorem collect_waits_without_timeout:
  "length (oplog (watching 1 (server 10 [] []))) = 1 \<and>
   position (streams (watching 1 (server 10 [] [])) ! 0) = 0 \<and>
   collect mongo 0 2 [] (watching 1 (server 10 [] [])) = Blocks \<and>
   is_Returns (collect mongo 0 0 [] (watching 1 (server 10 [] []))) \<and>
   length (returned (collect mongo 0 0 [] (watching 1 (server 10 [] [])))) = 1"
proof (intro conjI)
  show "length (oplog (watching 1 (server 10 [] []))) = 1" by code_simp
  show "position (streams (watching 1 (server 10 [] [])) ! 0) = 0" by code_simp
  have "is_Blocks (collect mongo 0 2 [] (watching 1 (server 10 [] [])))" by code_simp
  then show "collect mongo 0 2 [] (watching 1 (server 10 [] [])) = Blocks"
    by (cases "collect mongo 0 2 [] (watching 1 (server 10 [] []))") simp_all
  show "is_Returns (collect mongo 0 0 [] (watching 1 (server 10 [] [])))" by code_simp
  show "length (returned (collect mongo 0 0 [] (watching 1 (server 10 [] [])))) = 1"
    by code_simp
qed

section \<open>What run_all_tests returns\<close>

text \<open>
  Claim C7. \<^verbatim>\<open>run_all_tests\<close> returns exactly when \<^verbatim>\<open>setup\<close>, then
  \<^verbatim>\<open>test_resume_token_persistence\<close> with \<open>iterations = 5\<close>, then \<^verbatim>\<open>test_stream_durability\<close>
  with a disconnect of 5 seconds all return, one after the other; what it returns is one
  mapping with exactly the two keys \<^verbatim>\<open>resume_token_test\<close> and \<^verbatim>\<open>durability_test\<close>, holding
  the results of the two scenarios.
\<close>

theorem run_all_tests_returns_both:
  "run_all_tests src w = Returns m w' \<longleftrightarrow>
     (\<exists>w1 r1 w2 r2.
        setup_collection src w = Returns () w1 \<and>
        test_resume_token_persistence src 5 w1 = Returns r1 w2 \<and>
        test_stream_durability src 5 w2 = Returns r2 w' \<and>
        m = [''resume_token_test'' \<mapsto> r1, ''durability_test'' \<mapsto> r2] \<and>
        dom m = {''resume_token_test'', ''durability_test''})"
  by (auto simp: run_all_tests_def seq_Returns_iff iterations_default_def
        disconnect_duration_default_def)

text \<open>
  The run on a server with a retention window of 10 seconds.
\<close>

theorem run_all_tests_returns_both_witness:
  "is_Returns (run_all_tests mongo (server 10 [] [])) \<and>
   dom (returned (run_all_tests mongo (server 10 [] []))) =
     {''resume_token_test'', ''durability_test''} \<and>
   (\<exists>r1 r2. returned (run_all_tests mongo (server 10 [] [])) =
        [''resume_token_test'' \<mapsto> r1, ''durability_test'' \<mapsto> r2])"
proof -
  define T where "T = run_all_tests mongo (server 10 [] [])"
  have t: "is_Returns T" unfolding T_def by code_simp
  then have t_eq: "run_all_tests mongo (server 10 [] []) = Returns (returned T) (world_after T)"
    by (simp add: T_def)
  from run_all_tests_returns_both [THEN iffD1, OF t_eq] have
    "\<exists>r1 r2. returned T = [''resume_token_test'' \<mapsto> r1, ''durability_test'' \<mapsto> r2]"
    by (elim exE conjE) (intro exI; assumption)
  moreover from run_all_tests_returns_both [THEN iffD1, OF t_eq] have
    "dom (returned T) = {''resume_token_test'', ''durability_test''}"
    by (elim exE conjE)
  ultimately show ?thesis using t unfolding T_def by (intro conjI)
qed

section \<open>The bounds of scenario A\<close>

text \<open>
  Claim C8. For every \<open>iterations \<ge> 1\<close>, each of the two collection loops of
  \<^verbatim>\<open>test_resume_token_persistence\<close> stops once its buffer holds \<open>iterations\<close> events, so
  whenever the scenario returns, \<^verbatim>\<open>initial_events\<close> and \<^verbatim>\<open>resumed_events\<close> are counts between
  0 and \<open>iterations\<close>, and \<^verbatim>\<open>success\<close> is true exactly when \<^verbatim>\<open>resumed_events\<close> equals
  \<open>iterations\<close>. This holds for every driver.
\<close>

theorem resumed_counts_bounded:
  assumes "1 \<le> iterations"
    and "test_resume_token_persistence src iterations w = Returns r w'"
  shows "\<exists>a b. r ''initial_events'' = Some (VInt a) \<and> r ''resumed_events'' = Some (VInt b) \<and>
           0 \<le> a \<and> a \<le> iterations \<and> 0 \<le> b \<and> b \<le> iterations \<and>
           r ''success'' = Some (VBool (b = iterations))"
proof -
  from assms(2) obtain events new_events where
    ph: "resume_token_phases src iterations w = Returns (events, new_events) w'" and
    r: "r = resume_token_result iterations events new_events"
    by (auto simp: test_resume_token_persistence_Returns)
  from resume_token_phases_lengths [OF ph assms(1)] show ?thesis
    by (simp add: r resume_token_result_def)
qed

text \<open>
  Another client inserts a document during the first phase, so both streams have more than two
  events to deliver; each loop stops at two.
\<close>

theorem resumed_counts_bounded_witness:
  "(1::int) \<le> 2 \<and>
   is_Returns (test_resume_token_persistence mongo 2
      (server 10 [[OtherInsert [(''other'', VInt 1)]]] [])) \<and>
   (\<exists>a b. returned (test_resume_token_persistence mongo 2
               (server 10 [[OtherInsert [(''other'', VInt 1)]]] [])) ''initial_events''
             = Some (VInt a) \<and>
          returned (test_resume_token_persistence mongo 2
               (server 10 [[OtherInsert [(''other'', VInt 1)]]] [])) ''resumed_events''
             = Some (VInt b) \<and>
          0 \<le> a \<and> a \<le> 2 \<and> 0 \<le> b \<and> b \<le> 2 \<and>
          returned (test_resume_token_persistence mongo 2
               (server 10 [[OtherInsert [(''other'', VInt 1)]]] [])) ''success''
             = Some (VBool (b = 2)))"
proof -
  let ?T = "test_resume_token_persistence mongo 2
      (server 10 [[OtherInsert [(''other'', VInt 1)]]] [])"
  have ret: "is_Returns ?T" by code_simp
  then have eq: "?T = Returns (returned ?T) (world_after ?T)" by simp
  have one: "(1::int) \<le> 2" by simp
  from resumed_counts_bounded [OF one eq] ret show ?thesis by simp
qed

section \<open>Scenario B: any exception of the try body\<close>



section \<open>Setup before the scenarios\<close>

text \<open>
  Claim C10. \<^verbatim>\<open>run_all_tests\<close> starts with \<^verbatim>\<open>setup\<close>: when \<^verbatim>\<open>setup\<close> does not return, the
  run ends there and no scenario is started; when it returns, the scenarios run in the
  world it leaves. \<^verbatim>\<open>setup\<close> calls \<^verbatim>\<open>drop\<close> first and creates the index only after
  the drop has returned. On the event source, whatever documents the collection held
  before the run, it holds none when \<^verbatim>\<open>setup\<close> has returned.
\<close>

theorem setup_drops_collection_first:
  "(case setup_collection src w of
      Returns _ w1 \<Rightarrow>
        run_all_tests src w =
          seq (test_resume_token_persistence src 5 w1) (\<lambda>resume_token_test w2.
          seq (test_stream_durability src 5 w2) (\<lambda>durability_test w3.
          Returns [''resume_token_test'' \<mapsto> resume_token_test,
                   ''durability_test'' \<mapsto> durability_test] w3))
    | Raises e w1 \<Rightarrow> run_all_tests src w = Raises e w1
    | Blocks \<Rightarrow> run_all_tests src w = Blocks) \<and>
   setup_collection src w =
     (case collection_drop src w of
        Returns _ w0 \<Rightarrow> collection_create_index src ''_id'' w0
      | Raises e w0 \<Rightarrow> Raises e w0
      | Blocks \<Rightarrow> Blocks) \<and>
   (case setup_collection mongo v of
      Returns _ v1 \<Rightarrow> documents v1 = []
    | Raises e v1 \<Rightarrow>
        map_of (faults v) (calls v) = Some e \<or> map_of (faults v) (calls v + 1) = Some e
    | Blocks \<Rightarrow> False)"
proof (intro conjI)
  show "case setup_collection src w of
      Returns _ w1 \<Rightarrow>
        run_all_tests src w =
          seq (test_resume_token_persistence src 5 w1) (\<lambda>resume_token_test w2.
          seq (test_stream_durability src 5 w2) (\<lambda>durability_test w3.
          Returns [''resume_token_test'' \<mapsto> resume_token_test,
                   ''durability_test'' \<mapsto> durability_test] w3))
    | Raises e w1 \<Rightarrow> run_all_tests src w = Raises e w1
    | Blocks \<Rightarrow> run_all_tests src w = Blocks"
    by (cases "setup_collection src w")
       (simp_all add: run_all_tests_def iterations_default_def disconnect_duration_default_def)
  show "setup_collection src w =
     (case collection_drop src w of
        Returns _ w0 \<Rightarrow> collection_create_index src ''_id'' w0
      | Raises e w0 \<Rightarrow> Raises e w0
      | Blocks \<Rightarrow> Blocks)"
    by (cases "collection_drop src w") (simp_all add: setup_collection_def)
  show "case setup_collection mongo v of
      Returns _ v1 \<Rightarrow> documents v1 = []
    | Raises e v1 \<Rightarrow>
        map_of (faults v) (calls v) = Some e \<or> map_of (faults v) (calls v + 1) = Some e
    | Blocks \<Rightarrow> False"
  proof (cases "setup_collection mongo v")
    case (Returns u v1)
    then show ?thesis by (simp add: setup_collection_mongo)
  next
    case (Raises e v1)
    then show ?thesis
      by (auto simp: setup_collection_def mongo_def seq_Raises_iff mongo_drop_result
            mongo_create_index_def call_def drop_collection_def append_change_def
            split: option.splits if_splits)
  next
    case Blocks
    then show ?thesis
      by (auto simp: setup_collection_def mongo_def seq_Blocks_iff mongo_drop_result
            mongo_create_index_def call_def split: option.splits if_splits)
  qed
qed

text \<open>
  A collection that holds a document is empty after \<^verbatim>\<open>setup\<close>; a server
  that cannot be reached at \<^verbatim>\<open>drop\<close> ends the run at its first call.
\<close>

theorem setup_drops_collection_first_witness:
  "documents ((server 10 [] [])\<lparr>documents := [[(''kept'', VInt 7)]]\<rparr>) = [[(''kept'', VInt 7)]] \<and>
   is_Returns (setup_collection mongo ((server 10 [] [])\<lparr>documents := [[(''kept'', VInt 7)]]\<rparr>)) \<and>
   documents (world_after (setup_collection mongo
      ((server 10 [] [])\<lparr>documents := [[(''kept'', VInt 7)]]\<rparr>))) = [] \<and>
   is_Raises (run_all_tests mongo (server 10 [] [(0, Exn ''ServerSelectionTimeoutError'' ''unreachable'')])) \<and>
   calls (world_at_raise (run_all_tests mongo
      (server 10 [] [(0, Exn ''ServerSelectionTimeoutError'' ''unreachable'')]))) = 1"
proof -
  define V where "V = (server 10 [] [])\<lparr>documents := [[(''kept'', VInt 7)]]\<rparr>"
  define S where "S = setup_collection mongo V"
  have d: "documents V = [[(''kept'', VInt 7)]]" unfolding V_def by code_simp
  have s: "is_Returns S" unfolding S_def V_def by code_simp
  then have s_eq: "setup_collection mongo V = Returns () (world_after S)"
    unfolding S_def by (cases "setup_collection mongo V") simp_all
  from setup_drops_collection_first [where v = V, THEN conjunct2, THEN conjunct2]
  have cleared: "documents (world_after S) = []"
    by (simp add: s_eq)
  define W where "W = server 10 [] [(0, Exn ''ServerSelectionTimeoutError'' ''unreachable'')]"
  define F where "F = setup_collection mongo W"
  have "is_Raises F" unfolding F_def W_def by code_simp
  then have f_eq: "setup_collection mongo W = Raises (raised F) (world_at_raise F)"
    by (simp add: F_def)
  from setup_drops_collection_first [where src = mongo and w = W, THEN conjunct1]
  have run: "run_all_tests mongo W = Raises (raised F) (world_at_raise F)"
    by (simp add: f_eq)
  have "calls (world_at_raise F) = 1" unfolding F_def W_def by code_simp
  with run have "is_Raises (run_all_tests mongo W)" "calls (world_at_raise (run_all_tests mongo W)) = 1"
    by simp_all
  with d s cleared show ?thesis
    unfolding S_def V_def W_def by (intro conjI)
qed

end
